theory Spec2Isabelle
  imports Complex_Main
begin

unbundle bit_operations_syntax

section \<open>JavaScript numbers as used by PNGReader.ts\<close>

text \<open>
  Every number the decoder stores is an integer, and the only non-numbers it can meet are
  \<^verbatim>\<open>undefined\<close> (a read outside an array, a property never written) and the
  \<^verbatim>\<open>NaN\<close> that arithmetic makes of it. The operators used by the source
  (\<^verbatim>\<open>+ - << >> & <= Math.abs\<close>) convert \<^verbatim>\<open>undefined\<close> to
  \<^verbatim>\<open>NaN\<close> first, so one value \<open>None\<close> stands for both. Sizes, offsets and
  property keys can be fractions with denominator 8 (bytes per pixel is 1.5 for colour
  type 2 at bit depth 4) and are rationals here; a double holds them exactly up to
  \<open>2^53\<close>, more than any buffer the decoder can allocate.
\<close>

type_synonym jsnum = "int option"

text \<open>ToInt32: \<^verbatim>\<open>NaN\<close> becomes 0, an integer is wrapped into the signed 32-bit range.\<close>

definition toInt32 :: "jsnum \<Rightarrow> int" where
  "toInt32 v = (case v of None \<Rightarrow> 0 | Some x \<Rightarrow> signed_take_bit 31 x)"

definition js_add :: "jsnum \<Rightarrow> jsnum \<Rightarrow> jsnum" where
  "js_add a b = (case a of None \<Rightarrow> None | Some x \<Rightarrow> (case b of None \<Rightarrow> None | Some y \<Rightarrow> Some (x + y)))"

definition js_sub :: "jsnum \<Rightarrow> jsnum \<Rightarrow> jsnum" where
  "js_sub a b = (case a of None \<Rightarrow> None | Some x \<Rightarrow> (case b of None \<Rightarrow> None | Some y \<Rightarrow> Some (x - y)))"

definition js_abs :: "jsnum \<Rightarrow> jsnum" where
  "js_abs a = (case a of None \<Rightarrow> None | Some x \<Rightarrow> Some \<bar>x\<bar>)"

text \<open>\<^verbatim>\<open>a <= b\<close> is false as soon as one side is \<^verbatim>\<open>NaN\<close>.\<close>

definition js_le :: "jsnum \<Rightarrow> jsnum \<Rightarrow> bool" where
  "js_le a b = (case a of None \<Rightarrow> False | Some x \<Rightarrow> (case b of None \<Rightarrow> False | Some y \<Rightarrow> x \<le> y))"

text \<open>\<^verbatim>\<open>a << n\<close>, \<^verbatim>\<open>a >> n\<close> and \<^verbatim>\<open>a & b\<close> work on ToInt32 of their operands
  and give a signed 32-bit integer (shift counts here are below 32).\<close>

definition js_shl :: "jsnum \<Rightarrow> nat \<Rightarrow> int" where
  "js_shl a n = signed_take_bit 31 (push_bit n (toInt32 a))"

definition js_shr :: "jsnum \<Rightarrow> nat \<Rightarrow> int" where
  "js_shr a n = drop_bit n (toInt32 a)"

definition js_and :: "jsnum \<Rightarrow> jsnum \<Rightarrow> int" where
  "js_and a b = toInt32 a AND toInt32 b"

text \<open>\<^verbatim>\<open>buffer[k]\<close> on an array of numbers: \<^verbatim>\<open>undefined\<close> outside the array.\<close>

definition at_index :: "int list \<Rightarrow> nat \<Rightarrow> jsnum" where
  "at_index buffer k = (if k < length buffer then Some (buffer ! k) else None)"

section \<open>Byte readers\<close>

definition readUInt32 :: "int list \<Rightarrow> nat \<Rightarrow> int" where
  "readUInt32 buffer offset =
     js_shl (at_index buffer offset) 24 +
     js_shl (at_index buffer (offset + 1)) 16 +
     js_shl (at_index buffer (offset + 2)) 8 +
     js_shl (at_index buffer (offset + 3)) 0"

text \<open>\<open>interlaceNone\<close> calls \<open>readUInt8\<close> with its loop counter, which is not an integer when
  a row takes a fractional number of bytes: \<^verbatim>\<open>buffer[1.5]\<close> is \<^verbatim>\<open>undefined\<close>.\<close>

definition at_key :: "int list \<Rightarrow> rat \<Rightarrow> jsnum" where
  "at_key buffer k =
     (if k = of_int \<lfloor>k\<rfloor> \<and> 0 \<le> k \<and> k < rat_of_nat (length buffer)
      then Some (buffer ! nat \<lfloor>k\<rfloor>) else None)"

definition readUInt8 :: "int list \<Rightarrow> rat \<Rightarrow> int" where
  "readUInt8 buffer offset = js_shl (at_key buffer offset) 0"

text \<open>ToIntegerOrInfinity on a finite number: the fraction is dropped, towards zero.\<close>

definition js_trunc :: "rat \<Rightarrow> int" where
  "js_trunc q = (if q < 0 then \<lceil>q\<rceil> else \<lfloor>q\<rfloor>)"

text \<open>\<^verbatim>\<open>Array.prototype.slice.call(xs, start, stop)\<close>: both positions are truncated, a
  negative one counts from the end, and both are clamped to the array.\<close>

definition js_slice :: "int list \<Rightarrow> rat \<Rightarrow> rat \<Rightarrow> int list" where
  "js_slice xs start stop =
     (let n = int (length xs);
          rs = js_trunc start;
          re = js_trunc stop;
          k = (if rs < 0 then max (n + rs) 0 else min rs n);
          fin = (if re < 0 then max (n + re) 0 else min re n)
      in take (nat (fin - k)) (drop (nat k) xs))"

section \<open>The image descriptor (class PNG)\<close>

text \<open>The exceptions of the source, one constructor for each \<^verbatim>\<open>throw\<close>; the payload is
  the value the message prints.\<close>

datatype error =
    UnexpectedEndOfFile
  | PointerNotAtZero
  | BadSignature
  | BadChunkLength int
  | InvalidBitDepth int
  | InvalidColorType
  | InvalidCompressionMethod int
  | InvalidFilterMethod int
  | InvalidInterlaceMethod int
  | IncorrectPLTELength
  | PaletteTooLarge
  | UnknownFilteredScanline
  | Adam7NotImplemented
  | RangeError
  | TypeError
  | InflateError string
  | PixelDataEmpty
  | OutOfBound

text \<open>
  \<open>pixels\<close> is \<^verbatim>\<open>null\<close> or an \<^verbatim>\<open>ArrayBuffer\<close>. The source never reads the
  buffer's bytes: it writes and reads the object's properties (\<^verbatim>\<open>pixels[of + i] = ...\<close>),
  so the buffer is the map from property key (a number) to the value stored there,
  \<open>None\<close> where nothing was stored.
\<close>

type_synonym store = "rat \<Rightarrow> jsnum"

text \<open>\<^verbatim>\<open>new ArrayBuffer(n)\<close>: ToIndex throws a RangeError for a negative size and for
  one above \<open>2^53 - 1\<close>. The new buffer has no property set. (An engine also throws when
  it cannot allocate the size; the model lets every allowed size succeed.)\<close>

definition new_ArrayBuffer :: "rat \<Rightarrow> error + store" where
  "new_ArrayBuffer n =
     (if js_trunc n < 0 \<or> js_trunc n > 2 ^ 53 - 1 then Inl RangeError else Inr (\<lambda>k. None))"

record PNG =
  width :: int
  height :: int
  bitDepth :: int
  colorType :: int
  compressionMethod :: int
  filterMethod :: int
  interlaceMethod :: int
  colors :: int
  alpha :: bool
  pixelBits :: int
  palette :: "int list option"
  pixels :: "store option"

definition new_PNG :: PNG where
  "new_PNG = \<lparr>width = 0, height = 0, bitDepth = 0, colorType = 0, compressionMethod = 0,
     filterMethod = 0, interlaceMethod = 0, colors = 0, alpha = False, pixelBits = 0,
     palette = None, pixels = None\<rparr>"

definition set_width :: "int \<Rightarrow> PNG \<Rightarrow> error + PNG" where
  "set_width w p = Inr (p\<lparr>width := w\<rparr>)"

definition set_height :: "int \<Rightarrow> PNG \<Rightarrow> error + PNG" where
  "set_height h p = Inr (p\<lparr>height := h\<rparr>)"

definition set_bitDepth :: "int \<Rightarrow> PNG \<Rightarrow> error + PNG" where
  "set_bitDepth d p =
     (if d \<notin> set [2, 4, 8, 16] then Inl (InvalidBitDepth d) else Inr (p\<lparr>bitDepth := d\<rparr>))"

definition set_colorType :: "int \<Rightarrow> PNG \<Rightarrow> error + PNG" where
  "set_colorType t p =
     (if t = 0 then Inr (p\<lparr>colors := 1, alpha := False, colorType := t\<rparr>)
      else if t = 2 then Inr (p\<lparr>colors := 3, alpha := False, colorType := t\<rparr>)
      else if t = 3 then Inr (p\<lparr>colors := 1, alpha := False, colorType := t\<rparr>)
      else if t = 4 then Inr (p\<lparr>colors := 2, alpha := True, colorType := t\<rparr>)
      else if t = 6 then Inr (p\<lparr>colors := 4, alpha := True, colorType := t\<rparr>)
      else Inl InvalidColorType)"

definition set_compressionMethod :: "int \<Rightarrow> PNG \<Rightarrow> error + PNG" where
  "set_compressionMethod m p =
     (if m \<noteq> 0 then Inl (InvalidCompressionMethod m) else Inr (p\<lparr>compressionMethod := m\<rparr>))"

definition set_filterMethod :: "int \<Rightarrow> PNG \<Rightarrow> error + PNG" where
  "set_filterMethod m p =
     (if m \<noteq> 0 then Inl (InvalidFilterMethod m) else Inr (p\<lparr>filterMethod := m\<rparr>))"

definition set_interlaceMethod :: "int \<Rightarrow> PNG \<Rightarrow> error + PNG" where
  "set_interlaceMethod m p =
     (if m \<noteq> 0 \<and> m \<noteq> 1 then Inl (InvalidInterlaceMethod m) else Inr (p\<lparr>interlaceMethod := m\<rparr>))"

text \<open>\<^verbatim>\<open>Math.pow(2, this._bitDepth) * 3\<close>: the bit depth is 0 before a header was read and
  one of 2, 4, 8, 16 after, so the power is a natural number.\<close>

definition set_palette :: "int list \<Rightarrow> PNG \<Rightarrow> error + PNG" where
  "set_palette pal p =
     (if int (length pal) mod 3 \<noteq> 0 then Inl IncorrectPLTELength
      else if int (length pal) > 2 ^ nat (bitDepth p) * 3 then Inl PaletteTooLarge
      else Inr (p\<lparr>palette := Some pal\<rparr>))"

definition set_pixels :: "store \<Rightarrow> PNG \<Rightarrow> PNG" where
  "set_pixels px p = p\<lparr>pixels := Some px\<rparr>"

section \<open>Scanline reconstruction (the unFilter functions)\<close>

text \<open>
  \<^verbatim>\<open>for (; i < bound; i++) body\<close>, started at \<open>i\<close>. The counter is handed back with the
  state, since the second loop of an unFilter function goes on from where the first one
  stopped. The bound is a JavaScript number (bytes per pixel can be 1.5).
\<close>

function for_loop :: "nat \<Rightarrow> rat \<Rightarrow> (nat \<Rightarrow> 's \<Rightarrow> 's) \<Rightarrow> 's \<Rightarrow> nat \<times> 's" where
  "for_loop i bound body s =
     (if rat_of_nat i < bound then for_loop (Suc i) bound body (body i s) else (i, s))"
  by pat_completeness auto
termination
proof (relation "measure (\<lambda>(i, bound, body, s). nat \<lceil>bound\<rceil> - i)")
  show "wf (measure (\<lambda>(i, bound, body, s). nat \<lceil>bound :: rat\<rceil> - i))"
    by simp
next
  fix i :: nat and bound :: rat and body :: "nat \<Rightarrow> 's \<Rightarrow> 's" and s :: 's
  assume "rat_of_nat i < bound"
  then have "int i < \<lceil>bound\<rceil>"
    by (simp add: less_ceiling_iff)
  then show "((Suc i, bound, body, body i s), (i, bound, body, s))
      \<in> measure (\<lambda>(i, bound, body, s). nat \<lceil>bound\<rceil> - i)"
    by simp
qed

declare for_loop.simps [simp del]

text \<open>The parameters \<^verbatim>\<open>pixels\<close>, \<^verbatim>\<open>of\<close> and \<^verbatim>\<open>length\<close> of the source are
  \<open>px\<close>, \<open>off\<close> and \<open>len\<close> here.\<close>

definition unFilterNone :: "int list \<Rightarrow> store \<Rightarrow> rat \<Rightarrow> rat \<Rightarrow> rat \<Rightarrow> store" where
  "unFilterNone scanline px bpp off len =
     snd (for_loop 0 len (\<lambda>i p. p(off + of_nat i := at_index scanline i)) px)"

definition unFilterSub :: "int list \<Rightarrow> store \<Rightarrow> rat \<Rightarrow> rat \<Rightarrow> rat \<Rightarrow> store" where
  "unFilterSub scanline px bpp off len =
     (case for_loop 0 bpp (\<lambda>i p. p(off + of_nat i := at_index scanline i)) px of
        (i, px1) \<Rightarrow>
          snd (for_loop i len
            (\<lambda>i p. p(off + of_nat i :=
               Some (js_and (js_add (at_index scanline i) (p (off + of_nat i - bpp))) (Some 255))))
            px1))"

definition unFilterUp :: "int list \<Rightarrow> store \<Rightarrow> rat \<Rightarrow> rat \<Rightarrow> rat \<Rightarrow> store" where
  "unFilterUp scanline px bpp off len =
     (if off - len < 0
      then snd (for_loop 0 len (\<lambda>i p. p(off + of_nat i := at_index scanline i)) px)
      else snd (for_loop 0 len
        (\<lambda>i p. p(off + of_nat i :=
           Some (js_and (js_add (at_index scanline i) (p (off + of_nat i - len))) (Some 255))))
        px))"

definition unFilterAverage :: "int list \<Rightarrow> store \<Rightarrow> rat \<Rightarrow> rat \<Rightarrow> rat \<Rightarrow> store" where
  "unFilterAverage scanline px bpp off len =
     (if off - len < 0
      then
        (case for_loop 0 bpp (\<lambda>i p. p(off + of_nat i := at_index scanline i)) px of
           (i, px1) \<Rightarrow>
             snd (for_loop i len
               (\<lambda>i p. p(off + of_nat i := Some (js_and
                  (js_add (at_index scanline i) (Some (js_shr (p (off + of_nat i - bpp)) 1)))
                  (Some 255))))
               px1))
      else
        (case for_loop 0 bpp
                (\<lambda>i p. p(off + of_nat i := Some (js_and
                   (js_add (at_index scanline i) (Some (js_shr (p (off - len + of_nat i)) 1)))
                   (Some 255))))
                px of
           (i, px1) \<Rightarrow>
             snd (for_loop i len
               (\<lambda>i p. p(off + of_nat i := Some (js_and
                  (js_add (at_index scanline i)
                     (Some (js_shr (js_add (p (off + of_nat i - bpp)) (p (off + of_nat i - len))) 1)))
                  (Some 255))))
               px1)))"

text \<open>The predictor of lines 374 to 380: the estimate \<open>p\<close>, the three distances and the
  choice between \<open>a\<close>, \<open>b\<close> and \<open>c\<close>.\<close>

definition paeth_p :: "jsnum \<Rightarrow> jsnum \<Rightarrow> jsnum \<Rightarrow> jsnum" where
  "paeth_p a b c = js_sub (js_add a b) c"

definition paeth_pa :: "jsnum \<Rightarrow> jsnum \<Rightarrow> jsnum \<Rightarrow> jsnum" where
  "paeth_pa a b c = js_abs (js_sub (paeth_p a b c) a)"

definition paeth_pb :: "jsnum \<Rightarrow> jsnum \<Rightarrow> jsnum \<Rightarrow> jsnum" where
  "paeth_pb a b c = js_abs (js_sub (paeth_p a b c) b)"

definition paeth_pc :: "jsnum \<Rightarrow> jsnum \<Rightarrow> jsnum \<Rightarrow> jsnum" where
  "paeth_pc a b c = js_abs (js_sub (paeth_p a b c) c)"

definition paeth_pr :: "jsnum \<Rightarrow> jsnum \<Rightarrow> jsnum \<Rightarrow> jsnum" where
  "paeth_pr a b c =
     (if js_le (paeth_pa a b c) (paeth_pb a b c) \<and> js_le (paeth_pa a b c) (paeth_pc a b c) then a
      else if js_le (paeth_pb a b c) (paeth_pc a b c) then b
      else c)"

definition unFilterPaeth :: "int list \<Rightarrow> store \<Rightarrow> rat \<Rightarrow> rat \<Rightarrow> rat \<Rightarrow> store" where
  "unFilterPaeth scanline px bpp off len =
     (if off - len < 0
      then
        (case for_loop 0 bpp (\<lambda>i p. p(off + of_nat i := at_index scanline i)) px of
           (i, px1) \<Rightarrow>
             snd (for_loop i len
               (\<lambda>i p. p(off + of_nat i := Some (js_and
                  (js_add (at_index scanline i) (p (off + of_nat i - bpp))) (Some 255))))
               px1))
      else
        (case for_loop 0 bpp
                (\<lambda>i p. p(off + of_nat i := Some (js_and
                   (js_add (at_index scanline i) (p (off + of_nat i - len))) (Some 255))))
                px of
           (i, px1) \<Rightarrow>
             snd (for_loop i len
               (\<lambda>i p. p(off + of_nat i := Some (js_and
                  (js_add (at_index scanline i)
                     (paeth_pr (p (off + of_nat i - bpp)) (p (off + of_nat i - len))
                        (p (off + of_nat i - len - bpp))))
                  (Some 255))))
               px1)))"

text \<open>The \<^verbatim>\<open>switch\<close> of \<open>interlaceNone\<close> on the filter type byte of a scanline.\<close>

definition unFilterScanline ::
    "int \<Rightarrow> int list \<Rightarrow> store \<Rightarrow> rat \<Rightarrow> rat \<Rightarrow> rat \<Rightarrow> error + store" where
  "unFilterScanline t scanline px bpp off len =
     (if t = 0 then Inr (unFilterNone scanline px bpp off len)
      else if t = 1 then Inr (unFilterSub scanline px bpp off len)
      else if t = 2 then Inr (unFilterUp scanline px bpp off len)
      else if t = 3 then Inr (unFilterAverage scanline px bpp off len)
      else if t = 4 then Inr (unFilterPaeth scanline px bpp off len)
      else Inl UnknownFilteredScanline)"

subsection \<open>The vocabulary of the reconstruction rules\<close>

text \<open>
  A filtered scanline holds bytes; a reconstructed row \<open>r\<close> of \<open>len\<close> bytes occupies the
  keys \<open>r * len\<close> to \<open>r * len + len - 1\<close> of the pixel store. The statements about
  reconstruction take \<open>bpp\<close> and \<open>len\<close> as whole numbers of bytes, which they are for
  every colour type and bit depth of the PNG format at 8 and 16 bits per sample (the
  fractional 1.5 belongs to colour type 2 at bit depth 4, which the format does not have,
  and there the byte \<open>bpp\<close> positions to the left does not exist at all).
\<close>

definition is_byte :: "jsnum \<Rightarrow> bool" where
  "is_byte v = (case v of None \<Rightarrow> False | Some x \<Rightarrow> 0 \<le> x \<and> x < 256)"

definition all_bytes :: "int list \<Rightarrow> bool" where
  "all_bytes sl = list_all (\<lambda>v. 0 \<le> v \<and> v < 256) sl"

definition row_bytes :: "store \<Rightarrow> nat \<Rightarrow> nat \<Rightarrow> bool" where
  "row_bytes p len r = list_all (\<lambda>y. is_byte (p (rat_of_nat (r * len + y)))) [0..<len]"

text \<open>
  The neighbours of byte \<open>x\<close> of row \<open>r\<close> as the rules name them: \<open>a\<close> is the byte \<open>bpp\<close>
  positions to the left in the same row, \<open>b\<close> the byte at \<open>x\<close> in the row above, \<open>c\<close> the
  byte \<open>bpp\<close> positions to the left in the row above; each is 0 where there is no such
  byte (\<open>a\<close> and \<open>c\<close> for the first \<open>bpp\<close> bytes of a row, \<open>b\<close> and \<open>c\<close> in the first row).
\<close>

definition recon_a :: "store \<Rightarrow> nat \<Rightarrow> nat \<Rightarrow> nat \<Rightarrow> nat \<Rightarrow> jsnum" where
  "recon_a p bpp len r x = (if x < bpp then Some 0 else p (rat_of_nat (r * len + x - bpp)))"

definition recon_b :: "store \<Rightarrow> nat \<Rightarrow> nat \<Rightarrow> nat \<Rightarrow> jsnum" where
  "recon_b p len r x = (if r = 0 then Some 0 else p (rat_of_nat ((r - 1) * len + x)))"

definition recon_c :: "store \<Rightarrow> nat \<Rightarrow> nat \<Rightarrow> nat \<Rightarrow> nat \<Rightarrow> jsnum" where
  "recon_c p bpp len r x =
     (if r = 0 then Some 0 else if x < bpp then Some 0
      else p (rat_of_nat ((r - 1) * len + x - bpp)))"

subsection \<open>The encoder's side of the filters\<close>

text \<open>
  Modelled from the spec: the encoder-side filter. The repository holds a decoder only;
  the filter below follows the words of the specification, which calls it the algebraic
  inverse of the reconstruction table: \<open>filt(x) = (orig(x) - predictor) mod 256\<close>, where the
  predictor of type 0 is 0, of type 1 is \<open>a\<close>, of type 2 is \<open>b\<close>, of type 3 is
  \<open>floor((a + b) / 2)\<close> and of type 4 is the Paeth choice among \<open>a\<close>, \<open>b\<close>, \<open>c\<close>, taken on the
  original bytes. In a single row \<open>b\<close> and \<open>c\<close> are 0, and \<open>a\<close> is 0 for the first \<open>bpp\<close> bytes.
\<close>

definition spec_paeth :: "int \<Rightarrow> int \<Rightarrow> int \<Rightarrow> int" where
  "spec_paeth a b c =
     (let p = a + b - c; pa = \<bar>p - a\<bar>; pb = \<bar>p - b\<bar>; pc = \<bar>p - c\<bar>
      in if pa \<le> pb \<and> pa \<le> pc then a else if pb \<le> pc then b else c)"

definition spec_predictor :: "int \<Rightarrow> int \<Rightarrow> int \<Rightarrow> int \<Rightarrow> int" where
  "spec_predictor k a b c =
     (if k = 1 then a else if k = 2 then b else if k = 3 then (a + b) div 2
      else if k = 4 then spec_paeth a b c else 0)"

definition spec_filter_row :: "int \<Rightarrow> nat \<Rightarrow> int list \<Rightarrow> int list" where
  "spec_filter_row k bpp orig =
     map (\<lambda>x. (orig ! x - spec_predictor k (if x < bpp then 0 else orig ! (x - bpp)) 0 0) mod 256)
       [0..<length orig]"

section \<open>The chunk decoder (class PNGReader)\<close>

text \<open>The field \<^verbatim>\<open>i\<close> of the source, the current pointer, is \<open>pos\<close> here.\<close>

record PNGReader =
  bytes :: "int list"
  pos :: nat
  png :: PNG
  dataChunks :: "int list list"
  header :: "int list option"

definition new_PNGReader :: "int list \<Rightarrow> PNGReader" where
  "new_PNGReader bs = \<lparr>bytes = bs, pos = 0, png = new_PNG, dataChunks = [], header = None\<rparr>"

text \<open>An exception ends the sequence of statements it is thrown in.\<close>

definition bindE :: "error + 'a \<Rightarrow> ('a \<Rightarrow> error + 'b) \<Rightarrow> error + 'b" where
  "bindE m f = (case m of Inl e \<Rightarrow> Inl e | Inr v \<Rightarrow> f v)"

definition readBytes :: "nat \<Rightarrow> PNGReader \<Rightarrow> error + int list \<times> PNGReader" where
  "readBytes n r =
     (let e = pos r + n
      in if e > length (bytes r) then Inl UnexpectedEndOfFile
         else Inr (take n (drop (pos r) (bytes r)), r\<lparr>pos := e\<rparr>))"

fun equalBytes_loop :: "nat \<Rightarrow> int list \<Rightarrow> int list \<Rightarrow> bool" where
  "equalBytes_loop 0 a b = True"
| "equalBytes_loop (Suc l) a b = (if a ! l \<noteq> b ! l then False else equalBytes_loop l a b)"

definition equalBytes :: "int list \<Rightarrow> int list \<Rightarrow> bool" where
  "equalBytes a b = (if length a \<noteq> length b then False else equalBytes_loop (length a) a b)"

definition PNG_signature :: "int list" where
  "PNG_signature = [137, 80, 78, 71, 13, 10, 26, 10]"

definition decodeHeader :: "PNGReader \<Rightarrow> error + PNGReader" where
  "decodeHeader r =
     (if pos r \<noteq> 0 then Inl PointerNotAtZero
      else bindE (readBytes 8 r) (\<lambda>(h, r').
        if \<not> equalBytes h PNG_signature then Inl BadSignature
        else Inr (r'\<lparr>header := Some h\<rparr>)))"

text \<open>A string is the list of its UTF-16 code units; \<^verbatim>\<open>String.fromCharCode\<close> takes its
  argument modulo \<open>2^16\<close>. The four chunk types the decoder knows:\<close>

definition bufferToString :: "int list \<Rightarrow> int list" where
  "bufferToString buffer = map (\<lambda>b. b mod 65536) buffer"

definition IHDR :: "int list" where "IHDR = [73, 72, 68, 82]"
definition PLTE :: "int list" where "PLTE = [80, 76, 84, 69]"
definition IDAT :: "int list" where "IDAT = [73, 68, 65, 84]"
definition IEND :: "int list" where "IEND = [73, 69, 78, 68]"

definition decodeIHDR :: "int list \<Rightarrow> PNGReader \<Rightarrow> error + PNGReader" where
  "decodeIHDR chunk r =
     bindE (set_width (readUInt32 chunk 0) (png r)) (\<lambda>p1.
     bindE (set_height (readUInt32 chunk 4) p1) (\<lambda>p2.
     bindE (set_bitDepth (readUInt8 chunk 8) p2) (\<lambda>p3.
     bindE (set_colorType (readUInt8 chunk 9) p3) (\<lambda>p4.
     bindE (set_compressionMethod (readUInt8 chunk 10) p4) (\<lambda>p5.
     bindE (set_filterMethod (readUInt8 chunk 11) p5) (\<lambda>p6.
     bindE (set_interlaceMethod (readUInt8 chunk 12) p6) (\<lambda>p7.
     Inr (r\<lparr>png := p7\<rparr>))))))))"

definition decodePLTE :: "int list \<Rightarrow> PNGReader \<Rightarrow> error + PNGReader" where
  "decodePLTE chunk r = bindE (set_palette chunk (png r)) (\<lambda>p. Inr (r\<lparr>png := p\<rparr>))"

definition decodeIDAT :: "int list \<Rightarrow> PNGReader \<Rightarrow> PNGReader" where
  "decodeIDAT chunk r = r\<lparr>dataChunks := dataChunks r @ [chunk]\<rparr>"

definition decodeIEND :: "int list \<Rightarrow> PNGReader \<Rightarrow> PNGReader" where
  "decodeIEND chunk r = r"

definition decodeChunk :: "PNGReader \<Rightarrow> error + int list \<times> PNGReader" where
  "decodeChunk r =
     bindE (readBytes 4 r) (\<lambda>(lb, r1).
       let len = readUInt32 lb 0
       in if len < 0 then Inl (BadChunkLength (js_and (Some 4294967295) (Some len)))
          else
            bindE (readBytes 4 r1) (\<lambda>(tb, r2).
            let ty = bufferToString tb in
            bindE (readBytes (nat len) r2) (\<lambda>(chunk, r3).
            bindE (readBytes 4 r3) (\<lambda>(crc, r4).
            bindE (if ty = IHDR then decodeIHDR chunk r4
                   else if ty = PLTE then decodePLTE chunk r4
                   else if ty = IDAT then Inr (decodeIDAT chunk r4)
                   else if ty = IEND then Inr (decodeIEND chunk r4)
                   else Inr r4) (\<lambda>r5.
            Inr (ty, r5))))))"

text \<open>The options of \<open>parse\<close>: \<open>data\<close> is \<^verbatim>\<open>undefined\<close> (\<open>None\<close>), true or false.\<close>

record PNGReaderOptions =
  data :: "bool option"

text \<open>
  The \<^verbatim>\<open>while\<close> loop of \<open>parse\<close>. It ends because a chunk that is decoded moves the
  pointer forward, by its 12 bytes of framing at least.
\<close>

lemma readBytes_advances:
  "readBytes n r = Inr (bs, r') \<Longrightarrow>
   bytes r' = bytes r \<and> pos r' = pos r + n \<and> pos r' \<le> length (bytes r)"
  by (auto simp: readBytes_def Let_def split: if_splits)

lemma decodeIHDR_keeps: "decodeIHDR chunk r = Inr r' \<Longrightarrow> bytes r' = bytes r \<and> pos r' = pos r"
  by (auto simp: decodeIHDR_def bindE_def split: sum.splits)

lemma decodePLTE_keeps: "decodePLTE chunk r = Inr r' \<Longrightarrow> bytes r' = bytes r \<and> pos r' = pos r"
  by (auto simp: decodePLTE_def bindE_def split: sum.splits)

lemma decodeChunk_advances:
  assumes "decodeChunk r = Inr (ty, r')"
  shows "bytes r' = bytes r \<and> pos r < pos r' \<and> pos r' \<le> length (bytes r)"
  using assms
  by (auto simp: decodeChunk_def bindE_def Let_def decodeIDAT_def decodeIEND_def
      split: sum.splits prod.splits if_splits
      dest!: readBytes_advances decodeIHDR_keeps decodePLTE_keeps)

function chunk_loop :: "PNGReaderOptions \<Rightarrow> PNGReader \<Rightarrow> error + PNGReader" where
  "chunk_loop options r =
     (if pos r < length (bytes r)
      then (case decodeChunk r of
              Inl e \<Rightarrow> Inl e
            | Inr (ty, r') \<Rightarrow>
                if ty = IHDR \<and> data options = Some False \<or> ty = IEND then Inr r'
                else chunk_loop options r')
      else Inr r)"
  by pat_completeness auto
termination
proof (relation "measure (\<lambda>(options, r). length (bytes r) - pos r)")
  show "wf (measure (\<lambda>(options, r). length (bytes r) - pos r))"
    by simp
next
  fix options :: PNGReaderOptions and r :: PNGReader and x2 :: "int list \<times> PNGReader"
    and ty :: "int list" and r' :: PNGReader
  assume "pos r < length (bytes r)" and "decodeChunk r = Inr x2" and "(ty, r') = x2"
  then have "decodeChunk r = Inr (ty, r')"
    by simp
  from decodeChunk_advances[OF this] \<open>pos r < length (bytes r)\<close>
  show "((options, r'), (options, r)) \<in> measure (\<lambda>(options, r). length (bytes r) - pos r)"
    by (simp add: diff_less_mono2)
qed

declare chunk_loop.simps [simp del]

section \<open>Decompressed data to pixels\<close>

text \<open>
  The row loop of \<open>interlaceNone\<close>,
  \<^verbatim>\<open>for (let i = 0; i < data.length; i += cpr + 1)\<close>. When the header gave a width with
  its top bit set, \<open>readUInt32\<close> made it negative, \<open>cpr + 1\<close> is not positive and the loop
  need not end: the result \<open>None\<close> stands for a loop that runs forever.
\<close>

partial_function (option) scanline_loop ::
    "int list \<Rightarrow> rat \<Rightarrow> rat \<Rightarrow> store \<Rightarrow> rat \<Rightarrow> rat \<Rightarrow> (error + store) option" where
  "scanline_loop dat bpp cpr px offset i =
     (if i < rat_of_nat (length dat)
      then (case unFilterScanline (readUInt8 dat i) (js_slice dat (i + 1) (i + cpr + 1))
                   px bpp offset cpr of
              Inl e \<Rightarrow> Some (Inl e)
            | Inr px' \<Rightarrow> scanline_loop dat bpp cpr px' (offset + cpr) (i + (cpr + 1)))
      else Some (Inr px))"

definition interlaceNone :: "int list \<Rightarrow> PNG \<Rightarrow> (error + PNG) option" where
  "interlaceNone dat p =
     (let bpp = max 1 (rat_of_int (colors p * bitDepth p) / 8);
          cpr = bpp * rat_of_int (width p)
      in case new_ArrayBuffer (bpp * rat_of_int (width p) * rat_of_int (height p)) of
           Inl e \<Rightarrow> Some (Inl e)
         | Inr px \<Rightarrow>
             (case scanline_loop dat bpp cpr px 0 0 of
                None \<Rightarrow> None
              | Some (Inl e) \<Rightarrow> Some (Inl e)
              | Some (Inr px') \<Rightarrow> Some (Inr (set_pixels px' p))))"

definition interlaceAdam7 :: "int list \<Rightarrow> PNG \<Rightarrow> error + PNG" where
  "interlaceAdam7 dat p = Inl Adam7NotImplemented"

text \<open>
  What \<open>parse\<close> hands to its callback: the error, if any, and the image descriptor, if
  any. \<open>inflated\<close> records the effect on the decompression collaborator: the inputs it was
  called with, in order.
\<close>

record outcome =
  inflated :: "int list list"
  cb_err :: "error option"
  cb_png :: "PNG option"

text \<open>
  \<open>decodePixels\<close> makes \<^verbatim>\<open>new ArrayBuffer(length)\<close>, \<open>length\<close> the number of bytes of all
  IDAT chunks, and copies the chunk bytes with \<^verbatim>\<open>data[k++] = chunk[j]\<close>. On an
  \<^verbatim>\<open>ArrayBuffer\<close> that assignment sets a property of the object and leaves its bytes
  alone, so the buffer that reaches \<^verbatim>\<open>pako.inflate\<close> holds \<open>length\<close> zero bytes, and
  those are what \<^verbatim>\<open>pako.inflate\<close> reads.

  \<open>inflate\<close> is the collaborator (\<^verbatim>\<open>pako.inflate\<close> behind a callback): from the bytes of
  the buffer it is handed to the decompressed bytes, or to the message of the exception
  it threw. The callback of \<open>parse\<close> gets the descriptor also when an error is reported.
\<close>

definition decodePixels :: "(int list \<Rightarrow> string + int list) \<Rightarrow> PNGReader \<Rightarrow> outcome option" where
  "decodePixels inflate r =
     (let dat = replicate (length (concat (dataChunks r))) 0
      in case inflate dat of
           Inl msg \<Rightarrow>
             Some \<lparr>inflated = [dat], cb_err = Some (InflateError msg), cb_png = Some (png r)\<rparr>
         | Inr raw \<Rightarrow>
             (case (if interlaceMethod (png r) = 0 then interlaceNone raw (png r)
                    else Some (interlaceAdam7 raw (png r))) of
                None \<Rightarrow> None
              | Some (Inl e) \<Rightarrow> Some \<lparr>inflated = [dat], cb_err = Some e, cb_png = Some (png r)\<rparr>
              | Some (Inr p') \<Rightarrow> Some \<lparr>inflated = [dat], cb_err = None, cb_png = Some p'\<rparr>))"

definition parse ::
    "(int list \<Rightarrow> string + int list) \<Rightarrow> PNGReaderOptions \<Rightarrow> int list \<Rightarrow> outcome option" where
  "parse inflate options bs =
     (case bindE (decodeHeader (new_PNGReader bs)) (chunk_loop options) of
        Inl e \<Rightarrow> Some \<lparr>inflated = [], cb_err = Some e, cb_png = None\<rparr>
      | Inr r \<Rightarrow> decodePixels inflate r)"

section \<open>Sampling a pixel\<close>

text \<open>\<^verbatim>\<open>this._palette[v * 3 + k]\<close> for a palette that is not \<^verbatim>\<open>null\<close>.\<close>

definition palette_at :: "int list \<Rightarrow> jsnum \<Rightarrow> int \<Rightarrow> jsnum" where
  "palette_at pal v k =
     (case v of
        None \<Rightarrow> None
      | Some n \<Rightarrow> if 0 \<le> n * 3 + k \<and> n * 3 + k < int (length pal)
                  then Some (pal ! nat (n * 3 + k)) else None)"

text \<open>The result is the array of four samples, or \<open>None\<close> when no \<^verbatim>\<open>case\<close> of the
  \<^verbatim>\<open>switch\<close> returns.\<close>

definition getPixel :: "int \<Rightarrow> int \<Rightarrow> PNG \<Rightarrow> error + jsnum list option" where
  "getPixel x y p =
     (case pixels p of
        None \<Rightarrow> Inl PixelDataEmpty
      | Some px \<Rightarrow>
          if x \<ge> width p \<or> y \<ge> height p then Inl OutOfBound
          else
            let i = rat_of_int (colors p * bitDepth p) / 8 * rat_of_int (y * width p + x)
            in if colorType p = 0 then Inr (Some [px i, px i, px i, Some 255])
               else if colorType p = 2 then Inr (Some [px i, px (i + 1), px (i + 2), Some 255])
               else if colorType p = 3 then
                 (case palette p of
                    None \<Rightarrow> Inl TypeError
                  | Some pal \<Rightarrow>
                      Inr (Some [palette_at pal (px i) 0, palette_at pal (px i) 1,
                                 palette_at pal (px i) 2, Some 255]))
               else if colorType p = 4 then Inr (Some [px i, px i, px i, px (i + 1)])
               else if colorType p = 6 then Inr (Some [px i, px (i + 1), px (i + 2), px (i + 3)])
               else Inr None)"

section \<open>Sample files\<close>

text \<open>
  A complete PNG file, CRCs included: signature, IHDR (1 by 1 pixel, bit depth 8, colour
  type 0), one IDAT chunk of 10 bytes holding the zlib stream of the two bytes 0, 7 (filter
  type None, one grey sample), IEND.
\<close>

definition sample_png :: "int list" where
  "sample_png =
     [137, 80, 78, 71, 13, 10, 26, 10,
      0, 0, 0, 13, 73, 72, 68, 82, 0, 0, 0, 1, 0, 0, 0, 1, 8, 0, 0, 0, 0, 58, 126, 155, 85,
      0, 0, 0, 10, 73, 68, 65, 84, 120, 156, 99, 96, 7, 0, 0, 9, 0, 8, 32, 35, 195, 140,
      0, 0, 0, 0, 73, 69, 78, 68, 174, 66, 96, 130]"

text \<open>The same chunks with the IDAT chunk moved in front of the IHDR chunk.\<close>

definition idat_first_png :: "int list" where
  "idat_first_png =
     [137, 80, 78, 71, 13, 10, 26, 10,
      0, 0, 0, 10, 73, 68, 65, 84, 120, 156, 99, 96, 7, 0, 0, 9, 0, 8, 32, 35, 195, 140,
      0, 0, 0, 13, 73, 72, 68, 82, 0, 0, 0, 1, 0, 0, 0, 1, 8, 0, 0, 0, 0, 58, 126, 155, 85,
      0, 0, 0, 0, 73, 69, 78, 68, 174, 66, 96, 130]"

text \<open>The sample file with a PLTE chunk of one entry (1, 2, 3) in front of the IHDR chunk.\<close>

definition plte_first_png :: "int list" where
  "plte_first_png =
     [137, 80, 78, 71, 13, 10, 26, 10,
      0, 0, 0, 3, 80, 76, 84, 69, 1, 2, 3, 13, 135, 100, 213,
      0, 0, 0, 13, 73, 72, 68, 82, 0, 0, 0, 1, 0, 0, 0, 1, 8, 0, 0, 0, 0, 58, 126, 155, 85,
      0, 0, 0, 10, 73, 68, 65, 84, 120, 156, 99, 96, 7, 0, 0, 9, 0, 8, 32, 35, 195, 140,
      0, 0, 0, 0, 73, 69, 78, 68, 174, 66, 96, 130]"

text \<open>A file whose IHDR chunk gives width 0 and height 0; its IDAT chunk of 8 bytes holds
  the zlib stream of the empty byte sequence.\<close>

definition zero_size_png :: "int list" where
  "zero_size_png =
     [137, 80, 78, 71, 13, 10, 26, 10,
      0, 0, 0, 13, 73, 72, 68, 82, 0, 0, 0, 0, 0, 0, 0, 0, 8, 0, 0, 0, 0, 30, 224, 35, 206,
      0, 0, 0, 8, 73, 68, 65, 84, 120, 156, 3, 0, 0, 0, 0, 1, 72, 6, 137, 210,
      0, 0, 0, 0, 73, 69, 78, 68, 174, 66, 96, 130]"

text \<open>A file whose IEND chunk comes first, in front of the chunks of the sample file.\<close>

definition iend_first_png :: "int list" where
  "iend_first_png =
     [137, 80, 78, 71, 13, 10, 26, 10,
      0, 0, 0, 0, 73, 69, 78, 68, 174, 66, 96, 130,
      0, 0, 0, 13, 73, 72, 68, 82, 0, 0, 0, 1, 0, 0, 0, 1, 8, 0, 0, 0, 0, 58, 126, 155, 85,
      0, 0, 0, 10, 73, 68, 65, 84, 120, 156, 99, 96, 7, 0, 0, 9, 0, 8, 32, 35, 195, 140,
      0, 0, 0, 0, 73, 69, 78, 68, 174, 66, 96, 130]"

text \<open>
  The decompression collaborator on the buffers these files lead to. They hold zero bytes
  only, and zlib rejects them: the empty buffer with "buffer error", a buffer that starts
  with two zero bytes with "unknown compression method" (its header names no compression
  method).
\<close>

definition sample_inflate :: "int list \<Rightarrow> string + int list" where
  "sample_inflate d =
     (if d = [] then Inl ''buffer error'' else Inl ''unknown compression method'')"

section \<open>Bit depth\<close>

text \<open>
  C5. The claim: assigning \<open>bitDepth\<close> accepts exactly 1, 2, 4, 8 and 16. The setter's list
  is \<^verbatim>\<open>[2, 4, 8, 16]\<close>: a bit depth of 1 is rejected with "invalid bith depth 1",
  although the table in the colour type setter names 1 as an allowed depth of colour
  types 0 and 3.
\<close>

theorem bitDepth_one_rejected: "set_bitDepth 1 p = Inl (InvalidBitDepth 1)"
  by (simp add: set_bitDepth_def)

lemma set_bitDepth_accepts: "(\<exists>p'. set_bitDepth d p = Inr p') \<longleftrightarrow> d \<in> {2, 4, 8, 16}"
  by (simp add: set_bitDepth_def)

section \<open>Facts about the JavaScript operators and the loops\<close>

lemma js_and_255: "js_and (Some x) (Some 255) = x mod 256"
proof -
  have "signed_take_bit 31 x AND 255 = take_bit 8 (signed_take_bit 31 x)"
    by (simp add: take_bit_eq_mask mask_numeral)
  also have "\<dots> = take_bit 8 x"
    by (simp add: take_bit_signed_take_bit)
  finally show ?thesis
    by (simp add: js_and_def toInt32_def take_bit_eq_mod)
qed

lemma js_and_255_None: "js_and None (Some 255) = 0"
  by (simp add: js_and_def toInt32_def)

lemma js_shr_1: "0 \<le> x \<Longrightarrow> x < 2147483648 \<Longrightarrow> js_shr (Some x) (Suc 0) = x div 2"
  by (simp add: js_shr_def toInt32_def signed_take_bit_int_eq_self drop_bit_eq_div)

lemma js_shr_None: "js_shr None n = 0"
  by (simp add: js_shr_def toInt32_def)

lemma for_loop_nat: "for_loop i (rat_of_nat n) body s = (max i n, fold body [i..<n] s)"
proof (induction i "rat_of_nat n" body s rule: for_loop.induct)
  case (1 i body s)
  show ?case
  proof (cases "i < n")
    case True
    then show ?thesis
      using 1 by (subst for_loop.simps) (simp add: upt_conv_Cons max_def)
  next
    case False
    then show ?thesis
      by (subst for_loop.simps) (simp add: max_def)
  qed
qed

lemma fold_write_other:
  "(\<And>i. m \<le> i \<Longrightarrow> i < n \<Longrightarrow> k \<noteq> off + rat_of_nat i) \<Longrightarrow>
   fold (\<lambda>i p. p(off + rat_of_nat i := g i p)) [m..<n] px k = px k"
proof (induction n)
  case 0
  then show ?case by simp
next
  case (Suc n)
  show ?case
  proof (cases "m \<le> n")
    case True
    then show ?thesis using Suc by simp
  next
    case False
    then show ?thesis by simp
  qed
qed

lemma fold_write_at:
  assumes stable: "\<And>i j p v. i \<le> j \<Longrightarrow> g i (p(off + rat_of_nat j := v)) = g i p"
    and "m \<le> x" and "x < n"
  shows "fold (\<lambda>i p. p(off + rat_of_nat i := g i p)) [m..<n] px (off + rat_of_nat x)
         = g x (fold (\<lambda>i p. p(off + rat_of_nat i := g i p)) [m..<n] px)"
  using assms(2,3)
proof (induction n)
  case 0
  then show ?case by simp
next
  case (Suc n)
  define F where "F = fold (\<lambda>i p. p(off + rat_of_nat i := g i p)) [m..<n] px"
  from Suc.prems have mn: "m \<le> n" by simp
  then have step: "fold (\<lambda>i p. p(off + rat_of_nat i := g i p)) [m..<Suc n] px
      = F(off + rat_of_nat n := g n F)"
    by (simp add: F_def)
  have keep: "g x (F(off + rat_of_nat n := g n F)) = g x F"
    using Suc.prems by (intro stable) simp
  show ?case
  proof (cases "x = n")
    case True
    then show ?thesis unfolding step keep by simp
  next
    case False
    then have "x < n" using Suc.prems by simp
    then have "F (off + rat_of_nat x) = g x F"
      unfolding F_def by (rule Suc.IH[OF Suc.prems(1)])
    then show ?thesis unfolding step keep using False by simp
  qed
qed


lemma fold_write_stable:
  assumes stable: "\<And>j p v. m \<le> j \<Longrightarrow> h (p(off + rat_of_nat j := v)) = h p"
  shows "h (fold (\<lambda>i p. p(off + rat_of_nat i := g i p)) [m..<n] px) = h px"
proof (induction n)
  case 0
  then show ?case by simp
next
  case (Suc n)
  show ?case
  proof (cases "m \<le> n")
    case True
    then have "fold (\<lambda>i p. p(off + rat_of_nat i := g i p)) [m..<Suc n] px
      = (fold (\<lambda>i p. p(off + rat_of_nat i := g i p)) [m..<n] px)
          (off + rat_of_nat n := g n (fold (\<lambda>i p. p(off + rat_of_nat i := g i p)) [m..<n] px))"
      by simp
    then show ?thesis using Suc True by (simp only: stable)
  next
    case False
    then show ?thesis by simp
  qed
qed

lemma two_phase_low:
  assumes stable1: "\<And>i j p v. i \<le> j \<Longrightarrow> g1 i (p(off + rat_of_nat j := v)) = g1 i p"
    and "x < bpp"
  shows "fold (\<lambda>i p. p(off + rat_of_nat i := g2 i p)) [bpp..<len]
           (fold (\<lambda>i p. p(off + rat_of_nat i := g1 i p)) [0..<bpp] px) (off + rat_of_nat x)
         = g1 x (fold (\<lambda>i p. p(off + rat_of_nat i := g2 i p)) [bpp..<len]
           (fold (\<lambda>i p. p(off + rat_of_nat i := g1 i p)) [0..<bpp] px))"
proof -
  define px1 where "px1 = fold (\<lambda>i p. p(off + rat_of_nat i := g1 i p)) [0..<bpp] px"
  define px2 where "px2 = fold (\<lambda>i p. p(off + rat_of_nat i := g2 i p)) [bpp..<len] px1"
  have "px2 (off + rat_of_nat x) = px1 (off + rat_of_nat x)"
    unfolding px2_def using \<open>x < bpp\<close> by (intro fold_write_other) simp
  also have "\<dots> = g1 x px1"
    unfolding px1_def using \<open>x < bpp\<close> by (intro fold_write_at stable1) simp_all
  also have "\<dots> = g1 x px2"
    unfolding px2_def using \<open>x < bpp\<close>
    by (intro fold_write_stable[symmetric] stable1) simp
  finally show ?thesis
    by (simp only: px1_def px2_def)
qed

lemma two_phase_high:
  assumes stable2: "\<And>i j p v. i \<le> j \<Longrightarrow> g2 i (p(off + rat_of_nat j := v)) = g2 i p"
    and "bpp \<le> x" and "x < len"
  shows "fold (\<lambda>i p. p(off + rat_of_nat i := g2 i p)) [bpp..<len]
           (fold (\<lambda>i p. p(off + rat_of_nat i := g1 i p)) [0..<bpp] px) (off + rat_of_nat x)
         = g2 x (fold (\<lambda>i p. p(off + rat_of_nat i := g2 i p)) [bpp..<len]
           (fold (\<lambda>i p. p(off + rat_of_nat i := g1 i p)) [0..<bpp] px))"
  using assms(2,3) by (intro fold_write_at stable2)

lemma two_phase_other:
  assumes "\<And>i. k \<noteq> off + rat_of_nat i"
  shows "fold (\<lambda>i p. p(off + rat_of_nat i := g2 i p)) [bpp..<len]
           (fold (\<lambda>i p. p(off + rat_of_nat i := g1 i p)) [0..<bpp] px) k = px k"
  by (simp add: fold_write_other assms)

lemma key_below: "0 < d \<Longrightarrow> i \<le> j \<Longrightarrow> off + rat_of_nat i - d \<noteq> off + rat_of_nat j"
proof -
  assume "0 < d" "i \<le> j"
  then have "rat_of_nat i \<le> rat_of_nat j" by simp
  with \<open>0 < d\<close> show ?thesis by linarith
qed

lemma unFilterSub_fold:
  "unFilterSub sl px (rat_of_nat bpp) off (rat_of_nat len) =
     fold (\<lambda>i p. p(off + rat_of_nat i :=
               Some (js_and (js_add (at_index sl i) (p (off + rat_of_nat i - rat_of_nat bpp))) (Some 255))))
       [bpp..<len]
       (fold (\<lambda>i p. p(off + rat_of_nat i := at_index sl i)) [0..<bpp] px)"
  by (simp add: unFilterSub_def for_loop_nat)

lemma unFilterSub_low:
  "x < bpp \<Longrightarrow> unFilterSub sl px (rat_of_nat bpp) off (rat_of_nat len) (off + rat_of_nat x) = at_index sl x"
  unfolding unFilterSub_fold by (rule two_phase_low[where ?g1.0 = "\<lambda>i p. at_index sl i"]) simp_all

lemma unFilterSub_high:
  assumes "0 < bpp" "bpp \<le> x" "x < len"
  shows "unFilterSub sl px (rat_of_nat bpp) off (rat_of_nat len) (off + rat_of_nat x) =
     Some (js_and (js_add (at_index sl x)
       (unFilterSub sl px (rat_of_nat bpp) off (rat_of_nat len) (off + rat_of_nat x - rat_of_nat bpp))) (Some 255))"
  unfolding unFilterSub_fold
  by (rule two_phase_high[where ?g2.0 = "\<lambda>i p. Some (js_and (js_add (at_index sl i) (p (off + rat_of_nat i - rat_of_nat bpp))) (Some 255))"])
     (use assms in \<open>simp_all add: key_below\<close>)


lemma key_below2: "0 < d \<Longrightarrow> i \<le> j \<Longrightarrow> off - d + rat_of_nat i \<noteq> off + rat_of_nat j"
  using key_below[of d i j off] by (simp add: algebra_simps)

lemma key_below3:
  "0 < d \<Longrightarrow> 0 \<le> e \<Longrightarrow> i \<le> j \<Longrightarrow> off + rat_of_nat i - d - e \<noteq> off + rat_of_nat j"
  using key_below[of "d + e" i j off] by (simp add: algebra_simps)

lemma unFilterNone_at:
  "x < len \<Longrightarrow> unFilterNone sl px bpp off (rat_of_nat len) (off + rat_of_nat x) = at_index sl x"
  unfolding unFilterNone_def for_loop_nat snd_conv
  by (rule fold_write_at[where g = "\<lambda>i p. at_index sl i"]) simp_all

lemma unFilterNone_other:
  "(\<And>i. k \<noteq> off + rat_of_nat i) \<Longrightarrow> unFilterNone sl px bpp off (rat_of_nat len) k = px k"
  unfolding unFilterNone_def for_loop_nat snd_conv by (rule fold_write_other) simp

lemma unFilterSub_other:
  "(\<And>i. k \<noteq> off + rat_of_nat i) \<Longrightarrow>
   unFilterSub sl px (rat_of_nat bpp) off (rat_of_nat len) k = px k"
  unfolding unFilterSub_fold by (rule two_phase_other) simp

lemma unFilterUp_first:
  "off - rat_of_nat len < 0 \<Longrightarrow> x < len \<Longrightarrow>
   unFilterUp sl px bpp off (rat_of_nat len) (off + rat_of_nat x) = at_index sl x"
  unfolding unFilterUp_def for_loop_nat
  by (simp only: if_True snd_conv) (rule fold_write_at[where g = "\<lambda>i p. at_index sl i"], simp_all)

lemma unFilterUp_later:
  assumes "\<not> off - rat_of_nat len < 0" "x < len"
  shows "unFilterUp sl px bpp off (rat_of_nat len) (off + rat_of_nat x) =
     Some (js_and (js_add (at_index sl x)
        (unFilterUp sl px bpp off (rat_of_nat len) (off + rat_of_nat x - rat_of_nat len))) (Some 255))"
  unfolding unFilterUp_def for_loop_nat using assms(1)
  apply (simp only: if_False snd_conv)
  apply (rule fold_write_at[where g = "\<lambda>i p. Some (js_and (js_add (at_index sl i) (p (off + rat_of_nat i - rat_of_nat len))) (Some 255))"])
  using assms(2) apply (simp_all add: key_below)
  done

lemma unFilterUp_other:
  "(\<And>i. k \<noteq> off + rat_of_nat i) \<Longrightarrow> unFilterUp sl px bpp off (rat_of_nat len) k = px k"
  unfolding unFilterUp_def for_loop_nat by (simp add: fold_write_other)

lemma unFilterAverage_fold_first:
  "off - rat_of_nat len < 0 \<Longrightarrow>
   unFilterAverage sl px (rat_of_nat bpp) off (rat_of_nat len) =
     fold (\<lambda>i p. p(off + rat_of_nat i := Some (js_and
             (js_add (at_index sl i) (Some (js_shr (p (off + rat_of_nat i - rat_of_nat bpp)) 1)))
             (Some 255))))
       [bpp..<len]
       (fold (\<lambda>i p. p(off + rat_of_nat i := at_index sl i)) [0..<bpp] px)"
  by (simp add: unFilterAverage_def for_loop_nat)

lemma unFilterAverage_fold_later:
  "\<not> off - rat_of_nat len < 0 \<Longrightarrow>
   unFilterAverage sl px (rat_of_nat bpp) off (rat_of_nat len) =
     fold (\<lambda>i p. p(off + rat_of_nat i := Some (js_and
             (js_add (at_index sl i)
                (Some (js_shr (js_add (p (off + rat_of_nat i - rat_of_nat bpp))
                                      (p (off + rat_of_nat i - rat_of_nat len))) 1)))
             (Some 255))))
       [bpp..<len]
       (fold (\<lambda>i p. p(off + rat_of_nat i := Some (js_and
                (js_add (at_index sl i) (Some (js_shr (p (off - rat_of_nat len + rat_of_nat i)) 1)))
                (Some 255))))
          [0..<bpp] px)"
  by (simp add: unFilterAverage_def for_loop_nat)

lemma unFilterAverage_other:
  "(\<And>i. k \<noteq> off + rat_of_nat i) \<Longrightarrow>
   unFilterAverage sl px (rat_of_nat bpp) off (rat_of_nat len) k = px k"
  by (cases "off - rat_of_nat len < 0")
     (simp_all add: unFilterAverage_fold_first unFilterAverage_fold_later two_phase_other)

lemma unFilterAverage_first_low:
  "off - rat_of_nat len < 0 \<Longrightarrow> x < bpp \<Longrightarrow>
   unFilterAverage sl px (rat_of_nat bpp) off (rat_of_nat len) (off + rat_of_nat x) = at_index sl x"
  unfolding unFilterAverage_fold_first
  by (rule two_phase_low[where ?g1.0 = "\<lambda>i p. at_index sl i"]) simp_all

lemma unFilterAverage_first_high:
  assumes "off - rat_of_nat len < 0" "0 < bpp" "bpp \<le> x" "x < len"
  shows "unFilterAverage sl px (rat_of_nat bpp) off (rat_of_nat len) (off + rat_of_nat x) =
     Some (js_and (js_add (at_index sl x)
       (Some (js_shr (unFilterAverage sl px (rat_of_nat bpp) off (rat_of_nat len)
                        (off + rat_of_nat x - rat_of_nat bpp)) 1)))
       (Some 255))"
  unfolding unFilterAverage_fold_first[OF assms(1)]
  by (rule two_phase_high[where ?g2.0 = "\<lambda>i p. Some (js_and
             (js_add (at_index sl i) (Some (js_shr (p (off + rat_of_nat i - rat_of_nat bpp)) 1)))
             (Some 255))"])
     (use assms in \<open>simp_all add: key_below\<close>)

lemma unFilterAverage_later_low:
  assumes "\<not> off - rat_of_nat len < 0" "0 < len" "x < bpp"
  shows "unFilterAverage sl px (rat_of_nat bpp) off (rat_of_nat len) (off + rat_of_nat x) =
     Some (js_and (js_add (at_index sl x)
       (Some (js_shr (unFilterAverage sl px (rat_of_nat bpp) off (rat_of_nat len)
                        (off - rat_of_nat len + rat_of_nat x)) 1)))
       (Some 255))"
  unfolding unFilterAverage_fold_later[OF assms(1)]
  by (rule two_phase_low[where ?g1.0 = "\<lambda>i p. Some (js_and
                (js_add (at_index sl i) (Some (js_shr (p (off - rat_of_nat len + rat_of_nat i)) 1)))
                (Some 255))"])
     (use assms in \<open>simp_all add: key_below2\<close>)

lemma unFilterAverage_later_high:
  assumes "\<not> off - rat_of_nat len < 0" "0 < bpp" "bpp \<le> x" "x < len"
  shows "unFilterAverage sl px (rat_of_nat bpp) off (rat_of_nat len) (off + rat_of_nat x) =
     Some (js_and (js_add (at_index sl x)
       (Some (js_shr (js_add
          (unFilterAverage sl px (rat_of_nat bpp) off (rat_of_nat len) (off + rat_of_nat x - rat_of_nat bpp))
          (unFilterAverage sl px (rat_of_nat bpp) off (rat_of_nat len) (off + rat_of_nat x - rat_of_nat len)))
          1)))
       (Some 255))"
  unfolding unFilterAverage_fold_later[OF assms(1)]
  by (rule two_phase_high[where ?g2.0 = "\<lambda>i p. Some (js_and
             (js_add (at_index sl i)
                (Some (js_shr (js_add (p (off + rat_of_nat i - rat_of_nat bpp))
                                      (p (off + rat_of_nat i - rat_of_nat len))) 1)))
             (Some 255))"])
     (use assms in \<open>simp_all add: key_below\<close>)

lemma js_and_255_range: "0 \<le> js_and v (Some 255) \<and> js_and v (Some 255) < 256"
  by (cases v) (simp_all add: js_and_255 js_and_255_None)

lemma is_byte_masked: "is_byte (Some (js_and v (Some 255)))"
  using js_and_255_range[of v] by (simp add: is_byte_def)

lemma all_bytes_nth: "all_bytes sl \<Longrightarrow> x < length sl \<Longrightarrow> 0 \<le> sl ! x \<and> sl ! x < 256"
  by (simp add: all_bytes_def list_all_length)

lemma row_bytes_nth: "row_bytes p len r \<Longrightarrow> y < len \<Longrightarrow> is_byte (p (rat_of_nat (r * len + y)))"
  by (simp add: row_bytes_def list_all_length)

lemma is_byteE: "is_byte v \<Longrightarrow> \<exists>x. v = Some x \<and> 0 \<le> x \<and> x < 256"
  by (cases v) (simp_all add: is_byte_def)

lemma first_row_iff: "0 < len \<Longrightarrow> rat_of_nat (r * len) - rat_of_nat len < 0 \<longleftrightarrow> r = 0"
proof -
  assume len: "0 < len"
  have "rat_of_nat (r * len) < rat_of_nat len \<longleftrightarrow> r * len < len"
    by (rule of_nat_less_iff)
  also have "\<dots> \<longleftrightarrow> r = 0" using len by (cases r) simp_all
  finally show ?thesis by simp
qed

lemma key_row: "rat_of_nat (r * len + x) = rat_of_nat (r * len) + rat_of_nat x"
  by simp

lemma key_left: "bpp \<le> x \<Longrightarrow>
  rat_of_nat (r * len + x - bpp) = rat_of_nat (r * len) + rat_of_nat x - rat_of_nat bpp"
  by (simp add: of_nat_diff)

lemma key_above: "0 < r \<Longrightarrow>
  rat_of_nat ((r - 1) * len + x) = rat_of_nat (r * len) + rat_of_nat x - rat_of_nat len"
  by (cases r) (simp_all add: algebra_simps)

lemma key_above2: "0 < r \<Longrightarrow>
  rat_of_nat ((r - 1) * len + x) = rat_of_nat (r * len) - rat_of_nat len + rat_of_nat x"
  by (cases r) (simp_all add: algebra_simps)

lemma key_upper_left: "0 < r \<Longrightarrow> bpp \<le> x \<Longrightarrow>
  rat_of_nat ((r - 1) * len + x - bpp) =
    rat_of_nat (r * len) + rat_of_nat x - rat_of_nat len - rat_of_nat bpp"
  by (cases r) (simp_all add: algebra_simps of_nat_diff)

lemma key_not_in_row: "y < len \<Longrightarrow> off + rat_of_nat y - rat_of_nat len \<noteq> off + rat_of_nat i"
proof -
  assume "y < len"
  then have "rat_of_nat y < rat_of_nat len" by simp
  moreover have "0 \<le> rat_of_nat i" by simp
  ultimately show ?thesis by linarith
qed

lemma js_avg_bytes:
  assumes "0 \<le> f" "0 \<le> a" "a < 256" "0 \<le> b" "b < 256"
  shows "js_and (js_add (Some f) (Some (js_shr (js_add (Some a) (Some b)) (Suc 0)))) (Some 255)
          = (f + (a + b) div 2) mod 256"
  using assms by (simp add: js_add_def js_and_255 js_shr_1)

lemma js_half_byte:
  assumes "0 \<le> a" "a < 256"
  shows "js_and (js_add (Some f) (Some (js_shr (Some a) (Suc 0)))) (Some 255) = (f + a div 2) mod 256"
  using assms by (simp add: js_add_def js_and_255 js_shr_1)

lemma unFilterAverage_row_byte:
  assumes "0 < bpp" "y < len" "length sl = len" "all_bytes sl"
  shows "is_byte (unFilterAverage sl px (rat_of_nat bpp) off (rat_of_nat len) (off + rat_of_nat y))"
proof (cases "off - rat_of_nat len < 0")
  case True
  show ?thesis
  proof (cases "y < bpp")
    case True
    with \<open>off - rat_of_nat len < 0\<close> assms show ?thesis
      using all_bytes_nth[of sl y]
      by (simp add: unFilterAverage_first_low at_index_def is_byte_def)
  next
    case False
    with True assms show ?thesis
      by (simp add: unFilterAverage_first_high is_byte_masked)
  qed
next
  case False
  show ?thesis
  proof (cases "y < bpp")
    case True
    with False assms show ?thesis
      by (simp add: unFilterAverage_later_low is_byte_masked)
  next
    case nlt: False
    with False assms show ?thesis
      by (simp add: unFilterAverage_later_high is_byte_masked)
  qed
qed

lemma recon_a_low: "x < bpp \<Longrightarrow> recon_a p bpp len r x = Some 0"
  by (simp add: recon_a_def)

lemma recon_a_high: "bpp \<le> x \<Longrightarrow>
  recon_a p bpp len r x = p (rat_of_nat (r * len) + rat_of_nat x - rat_of_nat bpp)"
  unfolding recon_a_def by (simp only: key_left) simp

lemma recon_b_first: "recon_b p len 0 x = Some 0"
  by (simp add: recon_b_def)

lemma recon_b_later: "0 < r \<Longrightarrow>
  recon_b p len r x = p (rat_of_nat (r * len) + rat_of_nat x - rat_of_nat len)"
  unfolding recon_b_def by (simp only: key_above) simp

lemma recon_c_first: "recon_c p bpp len 0 x = Some 0"
  by (simp add: recon_c_def)

lemma recon_c_low: "x < bpp \<Longrightarrow> recon_c p bpp len r x = Some 0"
  by (simp add: recon_c_def)

lemma recon_c_high: "0 < r \<Longrightarrow> bpp \<le> x \<Longrightarrow>
  recon_c p bpp len r x =
    p (rat_of_nat (r * len) + rat_of_nat x - rat_of_nat len - rat_of_nat bpp)"
  unfolding recon_c_def by (simp only: key_upper_left) simp

lemma paeth_left_only: "paeth_pr (Some a) (Some 0) (Some 0) = Some a"
  by (simp add: paeth_pr_def paeth_pa_def paeth_pb_def paeth_pc_def paeth_p_def
      js_le_def js_abs_def js_sub_def js_add_def)

lemma paeth_above_only: "paeth_pr (Some 0) (Some b) (Some 0) = Some b"
  by (simp add: paeth_pr_def paeth_pa_def paeth_pb_def paeth_pc_def paeth_p_def
      js_le_def js_abs_def js_sub_def js_add_def)

lemma unFilterAverage_recon:
  assumes bpp: "0 < bpp" and x: "x < len" and sl: "length sl = len" "all_bytes sl"
    and prior: "0 < r \<Longrightarrow> row_bytes px len (r - 1)"
    and P: "P = unFilterAverage sl px (rat_of_nat bpp) (rat_of_nat (r * len)) (rat_of_nat len)"
  shows "\<exists>a b. recon_a P bpp len r x = Some a \<and> recon_b P len r x = Some b \<and>
           P (rat_of_nat (r * len + x)) = Some ((sl ! x + (a + b) div 2) mod 256)"
proof -
  let ?off = "rat_of_nat (r * len)"
  have len: "0 < len" using x by simp
  have fx: "0 \<le> sl ! x" "sl ! x < 256" "at_index sl x = Some (sl ! x)"
    using all_bytes_nth[of sl x] sl x by (simp_all add: at_index_def)
  have left: "\<exists>a. P (?off + rat_of_nat x - rat_of_nat bpp) = Some a \<and> 0 \<le> a \<and> a < 256"
    if "bpp \<le> x"
  proof -
    have "is_byte (P (?off + rat_of_nat (x - bpp)))"
      unfolding P using bpp x sl by (intro unFilterAverage_row_byte) simp_all
    then show ?thesis using that by (auto dest: is_byteE simp: of_nat_diff algebra_simps)
  qed
  have above: "\<exists>b. P (?off + rat_of_nat x - rat_of_nat len) = Some b \<and> 0 \<le> b \<and> b < 256"
    if "0 < r"
  proof -
    have "P (?off + rat_of_nat x - rat_of_nat len) = px (?off + rat_of_nat x - rat_of_nat len)"
      unfolding P using x by (intro unFilterAverage_other key_not_in_row)
    moreover have "is_byte (px (rat_of_nat ((r - 1) * len + x)))"
      using prior[OF that] x by (rule row_bytes_nth)
    then have "is_byte (px (?off + rat_of_nat x - rat_of_nat len))"
      by (simp only: key_above[OF that])
    ultimately show ?thesis by (auto dest: is_byteE)
  qed
  have obtain_a: "\<exists>a. recon_a P bpp len r x = Some a \<and> 0 \<le> a \<and> a < 256
      \<and> (bpp \<le> x \<longrightarrow> P (?off + rat_of_nat x - rat_of_nat bpp) = Some a) \<and> (x < bpp \<longrightarrow> a = 0)"
  proof (cases "x < bpp")
    case True
    then show ?thesis by (simp add: recon_a_low)
  next
    case False
    then show ?thesis using left by (simp only: recon_a_high) auto
  qed
  have obtain_b: "\<exists>b. recon_b P len r x = Some b \<and> 0 \<le> b \<and> b < 256
      \<and> (0 < r \<longrightarrow> P (?off + rat_of_nat x - rat_of_nat len) = Some b) \<and> (r = 0 \<longrightarrow> b = 0)"
  proof (cases "r = 0")
    case True
    then show ?thesis by (simp add: recon_b_first)
  next
    case False
    then show ?thesis using above by (simp only: recon_b_later) auto
  qed
  from obtain_a obtain a where a: "recon_a P bpp len r x = Some a" "0 \<le> a" "a < 256"
    "bpp \<le> x \<Longrightarrow> P (?off + rat_of_nat x - rat_of_nat bpp) = Some a" "x < bpp \<Longrightarrow> a = 0"
    by blast
  from obtain_b obtain b where b: "recon_b P len r x = Some b" "0 \<le> b" "b < 256"
    "0 < r \<Longrightarrow> P (?off + rat_of_nat x - rat_of_nat len) = Some b" "r = 0 \<Longrightarrow> b = 0"
    by blast
  have "P (?off + rat_of_nat x) = Some ((sl ! x + (a + b) div 2) mod 256)"
  proof (cases "r = 0")
    case True
    then have first: "?off - rat_of_nat len < 0" using len by simp
    show ?thesis
    proof (cases "x < bpp")
      case True
      have "P (?off + rat_of_nat x) = Some (sl ! x)"
        unfolding P using first True fx by (simp add: unFilterAverage_first_low)
      with \<open>r = 0\<close> True fx a b show ?thesis by simp
    next
      case False
      have "P (?off + rat_of_nat x) = Some (js_and (js_add (at_index sl x)
              (Some (js_shr (P (?off + rat_of_nat x - rat_of_nat bpp)) 1))) (Some 255))"
        unfolding P using first False bpp x by (intro unFilterAverage_first_high) simp_all
      also have "\<dots> = Some ((sl ! x + a div 2) mod 256)"
        using a False fx by (simp add: js_half_byte)
      finally show ?thesis using b \<open>r = 0\<close> by simp
    qed
  next
    case False
    then have r: "0 < r" by simp
    then have later: "\<not> ?off - rat_of_nat len < 0" using first_row_iff[OF len, of r] by simp
    show ?thesis
    proof (cases "x < bpp")
      case True
      have "P (?off - rat_of_nat len + rat_of_nat x) = Some b"
        using b(4)[OF r] by (simp add: algebra_simps)
      moreover have "P (?off + rat_of_nat x) = Some (js_and (js_add (at_index sl x)
              (Some (js_shr (P (?off - rat_of_nat len + rat_of_nat x)) 1))) (Some 255))"
        unfolding P using later True len by (intro unFilterAverage_later_low) simp_all
      ultimately have "P (?off + rat_of_nat x) = Some ((sl ! x + b div 2) mod 256)"
        using b fx by (simp add: js_half_byte)
      then show ?thesis using a True by simp
    next
      case nlt: False
      have "P (?off + rat_of_nat x) = Some (js_and (js_add (at_index sl x)
         (Some (js_shr (js_add (P (?off + rat_of_nat x - rat_of_nat bpp))
                               (P (?off + rat_of_nat x - rat_of_nat len))) 1))) (Some 255))"
        unfolding P using later nlt bpp x by (intro unFilterAverage_later_high) simp_all
      also have "\<dots> = Some ((sl ! x + (a + b) div 2) mod 256)"
        using a b nlt r fx by (simp add: js_avg_bytes)
      finally show ?thesis .
    qed
  qed
  then have "P (rat_of_nat (r * len + x)) = Some ((sl ! x + (a + b) div 2) mod 256)"
    by (simp only: key_row)
  with a(1) b(1) show ?thesis by blast
qed

lemma unFilterPaeth_fold_first:
  "off - rat_of_nat len < 0 \<Longrightarrow>
   unFilterPaeth sl px (rat_of_nat bpp) off (rat_of_nat len) =
     fold (\<lambda>i p. p(off + rat_of_nat i := Some (js_and
             (js_add (at_index sl i) (p (off + rat_of_nat i - rat_of_nat bpp))) (Some 255))))
       [bpp..<len]
       (fold (\<lambda>i p. p(off + rat_of_nat i := at_index sl i)) [0..<bpp] px)"
  by (simp add: unFilterPaeth_def for_loop_nat)

lemma unFilterPaeth_fold_later:
  "\<not> off - rat_of_nat len < 0 \<Longrightarrow>
   unFilterPaeth sl px (rat_of_nat bpp) off (rat_of_nat len) =
     fold (\<lambda>i p. p(off + rat_of_nat i := Some (js_and
             (js_add (at_index sl i)
                (paeth_pr (p (off + rat_of_nat i - rat_of_nat bpp))
                          (p (off + rat_of_nat i - rat_of_nat len))
                          (p (off + rat_of_nat i - rat_of_nat len - rat_of_nat bpp))))
             (Some 255))))
       [bpp..<len]
       (fold (\<lambda>i p. p(off + rat_of_nat i := Some (js_and
                (js_add (at_index sl i) (p (off + rat_of_nat i - rat_of_nat len))) (Some 255))))
          [0..<bpp] px)"
  by (simp add: unFilterPaeth_def for_loop_nat)

lemma unFilterPaeth_other:
  "(\<And>i. k \<noteq> off + rat_of_nat i) \<Longrightarrow>
   unFilterPaeth sl px (rat_of_nat bpp) off (rat_of_nat len) k = px k"
  by (cases "off - rat_of_nat len < 0")
     (simp_all add: unFilterPaeth_fold_first unFilterPaeth_fold_later two_phase_other)

lemma unFilterPaeth_first_low:
  "off - rat_of_nat len < 0 \<Longrightarrow> x < bpp \<Longrightarrow>
   unFilterPaeth sl px (rat_of_nat bpp) off (rat_of_nat len) (off + rat_of_nat x) = at_index sl x"
  unfolding unFilterPaeth_fold_first
  by (rule two_phase_low[where ?g1.0 = "\<lambda>i p. at_index sl i"]) simp_all

lemma unFilterPaeth_first_high:
  assumes "off - rat_of_nat len < 0" "0 < bpp" "bpp \<le> x" "x < len"
  shows "unFilterPaeth sl px (rat_of_nat bpp) off (rat_of_nat len) (off + rat_of_nat x) =
     Some (js_and (js_add (at_index sl x)
       (unFilterPaeth sl px (rat_of_nat bpp) off (rat_of_nat len)
          (off + rat_of_nat x - rat_of_nat bpp)))
       (Some 255))"
  unfolding unFilterPaeth_fold_first[OF assms(1)]
  by (rule two_phase_high[where ?g2.0 = "\<lambda>i p. Some (js_and
             (js_add (at_index sl i) (p (off + rat_of_nat i - rat_of_nat bpp))) (Some 255))"])
     (use assms in \<open>simp_all add: key_below\<close>)

lemma unFilterPaeth_later_low:
  assumes "\<not> off - rat_of_nat len < 0" "0 < len" "x < bpp"
  shows "unFilterPaeth sl px (rat_of_nat bpp) off (rat_of_nat len) (off + rat_of_nat x) =
     Some (js_and (js_add (at_index sl x)
       (unFilterPaeth sl px (rat_of_nat bpp) off (rat_of_nat len)
          (off + rat_of_nat x - rat_of_nat len)))
       (Some 255))"
  unfolding unFilterPaeth_fold_later[OF assms(1)]
  by (rule two_phase_low[where ?g1.0 = "\<lambda>i p. Some (js_and
                (js_add (at_index sl i) (p (off + rat_of_nat i - rat_of_nat len))) (Some 255))"])
     (use assms in \<open>simp_all add: key_below\<close>)

lemma unFilterPaeth_later_high:
  assumes "\<not> off - rat_of_nat len < 0" "0 < bpp" "bpp \<le> x" "x < len"
  shows "unFilterPaeth sl px (rat_of_nat bpp) off (rat_of_nat len) (off + rat_of_nat x) =
     Some (js_and (js_add (at_index sl x)
       (paeth_pr
          (unFilterPaeth sl px (rat_of_nat bpp) off (rat_of_nat len) (off + rat_of_nat x - rat_of_nat bpp))
          (unFilterPaeth sl px (rat_of_nat bpp) off (rat_of_nat len) (off + rat_of_nat x - rat_of_nat len))
          (unFilterPaeth sl px (rat_of_nat bpp) off (rat_of_nat len)
             (off + rat_of_nat x - rat_of_nat len - rat_of_nat bpp))))
       (Some 255))"
  unfolding unFilterPaeth_fold_later[OF assms(1)]
  by (rule two_phase_high[where ?g2.0 = "\<lambda>i p. Some (js_and
             (js_add (at_index sl i)
                (paeth_pr (p (off + rat_of_nat i - rat_of_nat bpp))
                          (p (off + rat_of_nat i - rat_of_nat len))
                          (p (off + rat_of_nat i - rat_of_nat len - rat_of_nat bpp))))
             (Some 255))"])
     (use assms in \<open>simp_all add: key_below key_below3\<close>)


lemma neighbour_a:
  assumes row: "\<And>y. y < len \<Longrightarrow> is_byte (P (rat_of_nat (r * len) + rat_of_nat y))"
    and x: "x < len"
  shows "\<exists>a. recon_a P bpp len r x = Some a \<and> 0 \<le> a \<and> a < 256 \<and>
           (bpp \<le> x \<longrightarrow> P (rat_of_nat (r * len) + rat_of_nat x - rat_of_nat bpp) = Some a) \<and>
           (x < bpp \<longrightarrow> a = 0)"
proof (cases "x < bpp")
  case True
  then show ?thesis by (simp add: recon_a_low)
next
  case False
  then have "is_byte (P (rat_of_nat (r * len) + rat_of_nat (x - bpp)))"
    using x by (intro row) simp
  then have "is_byte (P (rat_of_nat (r * len) + rat_of_nat x - rat_of_nat bpp))"
    using False by (simp add: of_nat_diff algebra_simps)
  then show ?thesis using False by (simp only: recon_a_high) (auto dest: is_byteE)
qed

lemma neighbour_b:
  assumes other: "\<And>k. (\<And>i. k \<noteq> rat_of_nat (r * len) + rat_of_nat i) \<Longrightarrow> P k = px k"
    and prior: "0 < r \<Longrightarrow> row_bytes px len (r - 1)"
    and x: "x < len"
  shows "\<exists>b. recon_b P len r x = Some b \<and> 0 \<le> b \<and> b < 256 \<and>
           (0 < r \<longrightarrow> P (rat_of_nat (r * len) + rat_of_nat x - rat_of_nat len) = Some b) \<and>
           (r = 0 \<longrightarrow> b = 0)"
proof (cases "r = 0")
  case True
  then show ?thesis by (simp add: recon_b_first)
next
  case False
  then have r: "0 < r" by simp
  have "P (rat_of_nat (r * len) + rat_of_nat x - rat_of_nat len)
      = px (rat_of_nat (r * len) + rat_of_nat x - rat_of_nat len)"
    using x by (intro other key_not_in_row)
  moreover have "is_byte (px (rat_of_nat ((r - 1) * len + x)))"
    using prior[OF r] x by (rule row_bytes_nth)
  then have "is_byte (px (rat_of_nat (r * len) + rat_of_nat x - rat_of_nat len))"
    by (simp only: key_above[OF r])
  ultimately show ?thesis using r by (simp only: recon_b_later) (auto dest: is_byteE)
qed

lemma neighbour_c:
  assumes other: "\<And>k. (\<And>i. k \<noteq> rat_of_nat (r * len) + rat_of_nat i) \<Longrightarrow> P k = px k"
    and prior: "0 < r \<Longrightarrow> row_bytes px len (r - 1)"
    and x: "x < len"
  shows "\<exists>c. recon_c P bpp len r x = Some c \<and> 0 \<le> c \<and> c < 256 \<and>
           (0 < r \<and> bpp \<le> x \<longrightarrow>
              P (rat_of_nat (r * len) + rat_of_nat x - rat_of_nat len - rat_of_nat bpp) = Some c) \<and>
           (r = 0 \<or> x < bpp \<longrightarrow> c = 0)"
proof (cases "0 < r \<and> bpp \<le> x")
  case False
  then have "recon_c P bpp len r x = Some 0"
    by (auto simp: recon_c_def)
  with False show ?thesis by auto
next
  case True
  then have r: "0 < r" and bx: "bpp \<le> x" by simp_all
  have lt: "x - bpp < len" using x by simp
  have eq: "rat_of_nat (r * len) + rat_of_nat (x - bpp) - rat_of_nat len
      = rat_of_nat (r * len) + rat_of_nat x - rat_of_nat len - rat_of_nat bpp"
    using bx by (simp add: of_nat_diff)
  have "P (rat_of_nat (r * len) + rat_of_nat (x - bpp) - rat_of_nat len)
      = px (rat_of_nat (r * len) + rat_of_nat (x - bpp) - rat_of_nat len)"
    using lt by (intro other key_not_in_row)
  moreover have "is_byte (px (rat_of_nat ((r - 1) * len + (x - bpp))))"
    using prior[OF r] lt by (rule row_bytes_nth)
  then have "is_byte (px (rat_of_nat (r * len) + rat_of_nat (x - bpp) - rat_of_nat len))"
    by (simp only: key_above[OF r])
  ultimately have "is_byte (P (rat_of_nat (r * len) + rat_of_nat x - rat_of_nat len - rat_of_nat bpp))"
    by (simp only: eq)
  then show ?thesis using r bx by (simp only: recon_c_high) (auto dest: is_byteE)
qed

lemma js_add_bytes: "js_and (js_add (Some f) (Some a)) (Some 255) = (f + a) mod 256"
  by (simp add: js_add_def js_and_255)

lemma paeth_pr_Some:
  "\<exists>pr. paeth_pr (Some a) (Some b) (Some c) = Some pr"
  by (simp add: paeth_pr_def)

lemma unFilterNone_recon:
  assumes "x < len" "length sl = len"
  shows "unFilterNone sl px bpp (rat_of_nat (r * len)) (rat_of_nat len) (rat_of_nat (r * len + x))
          = Some (sl ! x)"
  using assms by (simp only: key_row unFilterNone_at) (simp add: at_index_def)

lemma unFilterSub_row_byte:
  assumes "0 < bpp" "y < len" "length sl = len" "all_bytes sl"
  shows "is_byte (unFilterSub sl px (rat_of_nat bpp) off (rat_of_nat len) (off + rat_of_nat y))"
proof (cases "y < bpp")
  case True
  with assms show ?thesis
    using all_bytes_nth[of sl y] by (simp add: unFilterSub_low at_index_def is_byte_def)
next
  case False
  with assms show ?thesis
    by (simp add: unFilterSub_high is_byte_masked)
qed

lemma unFilterSub_recon:
  assumes bpp: "0 < bpp" and x: "x < len" and sl: "length sl = len" "all_bytes sl"
    and P: "P = unFilterSub sl px (rat_of_nat bpp) (rat_of_nat (r * len)) (rat_of_nat len)"
  shows "\<exists>a. recon_a P bpp len r x = Some a \<and>
           P (rat_of_nat (r * len + x)) = Some ((sl ! x + a) mod 256)"
proof -
  let ?off = "rat_of_nat (r * len)"
  have fx: "0 \<le> sl ! x" "sl ! x < 256" "at_index sl x = Some (sl ! x)"
    using all_bytes_nth[of sl x] sl x by (simp_all add: at_index_def)
  have "\<And>y. y < len \<Longrightarrow> is_byte (P (?off + rat_of_nat y))"
    unfolding P using bpp sl by (intro unFilterSub_row_byte) simp_all
  from neighbour_a[of len P r x bpp, OF this x]
  obtain a where a: "recon_a P bpp len r x = Some a" "0 \<le> a" "a < 256"
    "bpp \<le> x \<Longrightarrow> P (?off + rat_of_nat x - rat_of_nat bpp) = Some a" "x < bpp \<Longrightarrow> a = 0"
    by blast
  have "P (?off + rat_of_nat x) = Some ((sl ! x + a) mod 256)"
  proof (cases "x < bpp")
    case True
    have "P (?off + rat_of_nat x) = Some (sl ! x)"
      unfolding P using True fx by (simp add: unFilterSub_low)
    with True fx a show ?thesis by simp
  next
    case False
    have "P (?off + rat_of_nat x) = Some (js_and (js_add (at_index sl x)
            (P (?off + rat_of_nat x - rat_of_nat bpp))) (Some 255))"
      unfolding P using False bpp x by (intro unFilterSub_high) simp_all
    also have "\<dots> = Some ((sl ! x + a) mod 256)"
      using a False fx by (simp add: js_add_bytes)
    finally show ?thesis .
  qed
  then have "P (rat_of_nat (r * len + x)) = Some ((sl ! x + a) mod 256)"
    by (simp only: key_row)
  with a(1) show ?thesis by blast
qed

lemma unFilterUp_recon:
  assumes x: "x < len" and sl: "length sl = len" "all_bytes sl"
    and prior: "0 < r \<Longrightarrow> row_bytes px len (r - 1)"
    and P: "P = unFilterUp sl px bpp (rat_of_nat (r * len)) (rat_of_nat len)"
  shows "\<exists>b. recon_b P len r x = Some b \<and>
           P (rat_of_nat (r * len + x)) = Some ((sl ! x + b) mod 256)"
proof -
  let ?off = "rat_of_nat (r * len)"
  have len: "0 < len" using x by simp
  have fx: "0 \<le> sl ! x" "sl ! x < 256" "at_index sl x = Some (sl ! x)"
    using all_bytes_nth[of sl x] sl x by (simp_all add: at_index_def)
  have "\<And>k. (\<And>i. k \<noteq> ?off + rat_of_nat i) \<Longrightarrow> P k = px k"
    unfolding P by (rule unFilterUp_other)
  from neighbour_b[of r len P px x, OF this prior x]
  obtain b where b: "recon_b P len r x = Some b" "0 \<le> b" "b < 256"
    "0 < r \<Longrightarrow> P (?off + rat_of_nat x - rat_of_nat len) = Some b" "r = 0 \<Longrightarrow> b = 0"
    by blast
  have "P (?off + rat_of_nat x) = Some ((sl ! x + b) mod 256)"
  proof (cases "r = 0")
    case True
    then have first: "?off - rat_of_nat len < 0" using len by simp
    have "P (?off + rat_of_nat x) = at_index sl x"
      unfolding P using first x by (rule unFilterUp_first)
    with True fx b show ?thesis by simp
  next
    case False
    then have r: "0 < r" by simp
    then have later: "\<not> ?off - rat_of_nat len < 0" using first_row_iff[OF len, of r] by simp
    have "P (?off + rat_of_nat x) = Some (js_and (js_add (at_index sl x)
            (P (?off + rat_of_nat x - rat_of_nat len))) (Some 255))"
      unfolding P using later x by (intro unFilterUp_later) simp_all
    also have "\<dots> = Some ((sl ! x + b) mod 256)"
      using b r fx by (simp add: js_add_bytes)
    finally show ?thesis .
  qed
  then have "P (rat_of_nat (r * len + x)) = Some ((sl ! x + b) mod 256)"
    by (simp only: key_row)
  with b(1) show ?thesis by blast
qed

lemma unFilterPaeth_row_byte:
  assumes "0 < bpp" "y < len" "length sl = len" "all_bytes sl"
  shows "is_byte (unFilterPaeth sl px (rat_of_nat bpp) off (rat_of_nat len) (off + rat_of_nat y))"
proof (cases "off - rat_of_nat len < 0")
  case True
  show ?thesis
  proof (cases "y < bpp")
    case True
    with \<open>off - rat_of_nat len < 0\<close> assms show ?thesis
      using all_bytes_nth[of sl y]
      by (simp add: unFilterPaeth_first_low at_index_def is_byte_def)
  next
    case False
    with True assms show ?thesis
      by (simp add: unFilterPaeth_first_high is_byte_masked)
  qed
next
  case False
  show ?thesis
  proof (cases "y < bpp")
    case True
    with False assms show ?thesis
      by (simp add: unFilterPaeth_later_low is_byte_masked)
  next
    case nlt: False
    with False assms show ?thesis
      by (simp add: unFilterPaeth_later_high is_byte_masked)
  qed
qed

lemma unFilterPaeth_recon:
  assumes bpp: "0 < bpp" and x: "x < len" and sl: "length sl = len" "all_bytes sl"
    and prior: "0 < r \<Longrightarrow> row_bytes px len (r - 1)"
    and P: "P = unFilterPaeth sl px (rat_of_nat bpp) (rat_of_nat (r * len)) (rat_of_nat len)"
  shows "\<exists>a b c pr. recon_a P bpp len r x = Some a \<and> recon_b P len r x = Some b \<and>
           recon_c P bpp len r x = Some c \<and> paeth_pr (Some a) (Some b) (Some c) = Some pr \<and>
           P (rat_of_nat (r * len + x)) = Some ((sl ! x + pr) mod 256)"
proof -
  let ?off = "rat_of_nat (r * len)"
  have len: "0 < len" using x by simp
  have fx: "0 \<le> sl ! x" "sl ! x < 256" "at_index sl x = Some (sl ! x)"
    using all_bytes_nth[of sl x] sl x by (simp_all add: at_index_def)
  have row: "\<And>y. y < len \<Longrightarrow> is_byte (P (?off + rat_of_nat y))"
    unfolding P using bpp sl by (intro unFilterPaeth_row_byte) simp_all
  have other: "\<And>k. (\<And>i. k \<noteq> ?off + rat_of_nat i) \<Longrightarrow> P k = px k"
    unfolding P by (rule unFilterPaeth_other)
  from neighbour_a[of len P r x bpp, OF row x]
  obtain a where a: "recon_a P bpp len r x = Some a" "0 \<le> a" "a < 256"
    "bpp \<le> x \<Longrightarrow> P (?off + rat_of_nat x - rat_of_nat bpp) = Some a" "x < bpp \<Longrightarrow> a = 0"
    by blast
  from neighbour_b[of r len P px x, OF other prior x]
  obtain b where b: "recon_b P len r x = Some b" "0 \<le> b" "b < 256"
    "0 < r \<Longrightarrow> P (?off + rat_of_nat x - rat_of_nat len) = Some b" "r = 0 \<Longrightarrow> b = 0"
    by blast
  from neighbour_c[of r len P px x bpp, OF other prior x]
  obtain c where c: "recon_c P bpp len r x = Some c" "0 \<le> c" "c < 256"
    "0 < r \<Longrightarrow> bpp \<le> x \<Longrightarrow>
       P (?off + rat_of_nat x - rat_of_nat len - rat_of_nat bpp) = Some c"
    "r = 0 \<or> x < bpp \<Longrightarrow> c = 0"
    by blast
  obtain pr where pr: "paeth_pr (Some a) (Some b) (Some c) = Some pr"
    using paeth_pr_Some by blast
  have "P (?off + rat_of_nat x) = Some ((sl ! x + pr) mod 256)"
  proof (cases "r = 0")
    case True
    then have first: "?off - rat_of_nat len < 0" using len by simp
    from True have bc: "b = 0" "c = 0" using b c by simp_all
    then have pra: "pr = a" using pr by (simp add: paeth_left_only)
    show ?thesis
    proof (cases "x < bpp")
      case True
      have "P (?off + rat_of_nat x) = Some (sl ! x)"
        unfolding P using first True fx by (simp add: unFilterPaeth_first_low)
      with True fx a pra show ?thesis by simp
    next
      case False
      have "P (?off + rat_of_nat x) = Some (js_and (js_add (at_index sl x)
              (P (?off + rat_of_nat x - rat_of_nat bpp))) (Some 255))"
        unfolding P using first False bpp x by (intro unFilterPaeth_first_high) simp_all
      also have "\<dots> = Some ((sl ! x + a) mod 256)"
        using a False fx by (simp add: js_add_bytes)
      finally show ?thesis using pra by simp
    qed
  next
    case False
    then have r: "0 < r" by simp
    then have later: "\<not> ?off - rat_of_nat len < 0" using first_row_iff[OF len, of r] by simp
    show ?thesis
    proof (cases "x < bpp")
      case True
      then have "a = 0" "c = 0" using a c by simp_all
      then have prb: "pr = b" using pr by (simp add: paeth_above_only)
      have "P (?off + rat_of_nat x) = Some (js_and (js_add (at_index sl x)
              (P (?off + rat_of_nat x - rat_of_nat len))) (Some 255))"
        unfolding P using later True len by (intro unFilterPaeth_later_low) simp_all
      also have "\<dots> = Some ((sl ! x + b) mod 256)"
        using b r fx by (simp add: js_add_bytes)
      finally show ?thesis using prb by simp
    next
      case nlt: False
      have "P (?off + rat_of_nat x) = Some (js_and (js_add (at_index sl x)
         (paeth_pr (P (?off + rat_of_nat x - rat_of_nat bpp))
                   (P (?off + rat_of_nat x - rat_of_nat len))
                   (P (?off + rat_of_nat x - rat_of_nat len - rat_of_nat bpp)))) (Some 255))"
        unfolding P using later nlt bpp x by (intro unFilterPaeth_later_high) simp_all
      also have "\<dots> = Some ((sl ! x + pr) mod 256)"
        using a b c nlt r fx pr by (simp add: js_add_bytes)
      finally show ?thesis .
    qed
  qed
  then have "P (rat_of_nat (r * len + x)) = Some ((sl ! x + pr) mod 256)"
    by (simp only: key_row)
  with a(1) b(1) c(1) pr show ?thesis by blast
qed

lemma spec_paeth_left: "spec_paeth a 0 0 = a"
  by (simp add: spec_paeth_def Let_def)

lemma length_spec_filter_row: "length (spec_filter_row k bpp orig) = length orig"
  by (simp add: spec_filter_row_def)

lemma all_bytes_spec_filter_row: "all_bytes (spec_filter_row k bpp orig)"
  by (simp add: spec_filter_row_def all_bytes_def list_all_iff)

lemma spec_filter_row_nth:
  "x < length orig \<Longrightarrow>
   spec_filter_row k bpp orig ! x =
     (orig ! x - spec_predictor k (if x < bpp then 0 else orig ! (x - bpp)) 0 0) mod 256"
  by (simp add: spec_filter_row_def)

lemma unfilter_refilter: "0 \<le> v \<Longrightarrow> v < 256 \<Longrightarrow> ((v - q) mod 256 + q) mod 256 = (v::int)"
  by (simp add: mod_simps)

lemma roundtrip_None:
  assumes "all_bytes orig" "x < length orig"
  shows "unFilterNone (spec_filter_row 0 bpp orig) px (rat_of_nat bpp) 0 (rat_of_nat (length orig))
           (rat_of_nat x) = Some (orig ! x)"
proof -
  have "unFilterNone (spec_filter_row 0 bpp orig) px (rat_of_nat bpp) (rat_of_nat (0 * length orig))
           (rat_of_nat (length orig)) (rat_of_nat (0 * length orig + x))
        = Some (spec_filter_row 0 bpp orig ! x)"
    using assms by (intro unFilterNone_recon) (simp_all add: length_spec_filter_row)
  then show ?thesis
    using assms all_bytes_nth[of orig x]
    by (simp add: spec_filter_row_nth spec_predictor_def)
qed

lemma roundtrip_Up:
  assumes "all_bytes orig" "x < length orig"
  shows "unFilterUp (spec_filter_row 2 bpp orig) px (rat_of_nat bpp) 0 (rat_of_nat (length orig))
           (rat_of_nat x) = Some (orig ! x)"
proof -
  have "\<exists>b. recon_b (unFilterUp (spec_filter_row 2 bpp orig) px (rat_of_nat bpp)
                (rat_of_nat (0 * length orig)) (rat_of_nat (length orig))) (length orig) 0 x = Some b \<and>
      unFilterUp (spec_filter_row 2 bpp orig) px (rat_of_nat bpp) (rat_of_nat (0 * length orig))
           (rat_of_nat (length orig)) (rat_of_nat (0 * length orig + x))
        = Some ((spec_filter_row 2 bpp orig ! x + b) mod 256)"
    using assms
    by (intro unFilterUp_recon) (simp_all add: length_spec_filter_row all_bytes_spec_filter_row)
  then show ?thesis
    using assms all_bytes_nth[of orig x]
    by (auto simp: spec_filter_row_nth spec_predictor_def recon_b_first)
qed


lemma recon_a_first_row:
  "recon_a P bpp len 0 x = (if x < bpp then Some 0 else P (rat_of_nat (x - bpp)))"
  by (simp add: recon_a_def)

lemma roundtrip_Sub:
  assumes bpp: "0 < bpp" and orig: "all_bytes orig" and x: "x < length orig"
  shows "unFilterSub (spec_filter_row 1 bpp orig) px (rat_of_nat bpp) 0 (rat_of_nat (length orig))
           (rat_of_nat x) = Some (orig ! x)"
  using x
proof (induction x rule: less_induct)
  case (less x)
  define P where "P = unFilterSub (spec_filter_row 1 bpp orig) px (rat_of_nat bpp)
                        (rat_of_nat (0 * length orig)) (rat_of_nat (length orig))"
  have P0: "P = unFilterSub (spec_filter_row 1 bpp orig) px (rat_of_nat bpp) 0 (rat_of_nat (length orig))"
    by (simp add: P_def)
  have ox: "0 \<le> orig ! x" "orig ! x < 256"
    using all_bytes_nth[OF orig less.prems] by simp_all
  obtain a where a: "recon_a P bpp (length orig) 0 x = Some a"
    and Px: "P (rat_of_nat (0 * length orig + x)) = Some ((spec_filter_row 1 bpp orig ! x + a) mod 256)"
    using unFilterSub_recon[OF bpp less.prems length_spec_filter_row all_bytes_spec_filter_row P_def]
    by blast
  have "spec_filter_row 1 bpp orig ! x = (orig ! x - a) mod 256"
  proof (cases "x < bpp")
    case True
    with a less.prems show ?thesis
      by (simp add: recon_a_first_row spec_filter_row_nth spec_predictor_def)
  next
    case False
    then have "x - bpp < x" "x - bpp < length orig" using bpp less.prems by simp_all
    then have "P (rat_of_nat (x - bpp)) = Some (orig ! (x - bpp))"
      unfolding P0 by (rule less.IH)
    with a False less.prems show ?thesis
      by (simp add: recon_a_first_row spec_filter_row_nth spec_predictor_def)
  qed
  with Px ox have "P (rat_of_nat x) = Some (orig ! x)"
    by (simp add: unfilter_refilter)
  then show ?case by (simp only: P0)
qed

lemma roundtrip_Average:
  assumes bpp: "0 < bpp" and orig: "all_bytes orig" and x: "x < length orig"
  shows "unFilterAverage (spec_filter_row 3 bpp orig) px (rat_of_nat bpp) 0 (rat_of_nat (length orig))
           (rat_of_nat x) = Some (orig ! x)"
  using x
proof (induction x rule: less_induct)
  case (less x)
  define P where "P = unFilterAverage (spec_filter_row 3 bpp orig) px (rat_of_nat bpp)
                        (rat_of_nat (0 * length orig)) (rat_of_nat (length orig))"
  have P0: "P = unFilterAverage (spec_filter_row 3 bpp orig) px (rat_of_nat bpp) 0 (rat_of_nat (length orig))"
    by (simp add: P_def)
  have ox: "0 \<le> orig ! x" "orig ! x < 256"
    using all_bytes_nth[OF orig less.prems] by simp_all
  have no_prior: "(0::nat) < 0 \<Longrightarrow> row_bytes px (length orig) (0 - 1)"
    by simp
  obtain a b where a: "recon_a P bpp (length orig) 0 x = Some a"
    and b: "recon_b P (length orig) 0 x = Some b"
    and Px: "P (rat_of_nat (0 * length orig + x))
               = Some ((spec_filter_row 3 bpp orig ! x + (a + b) div 2) mod 256)"
    using unFilterAverage_recon[OF bpp less.prems length_spec_filter_row all_bytes_spec_filter_row
        no_prior P_def]
    by blast
  have b0: "b = 0" using b by (simp add: recon_b_first)
  have "spec_filter_row 3 bpp orig ! x = (orig ! x - (a + b) div 2) mod 256"
  proof (cases "x < bpp")
    case True
    with a b0 less.prems show ?thesis
      by (simp add: recon_a_first_row spec_filter_row_nth spec_predictor_def)
  next
    case False
    then have "x - bpp < x" "x - bpp < length orig" using bpp less.prems by simp_all
    then have "P (rat_of_nat (x - bpp)) = Some (orig ! (x - bpp))"
      unfolding P0 by (rule less.IH)
    with a b0 False less.prems show ?thesis
      by (simp add: recon_a_first_row spec_filter_row_nth spec_predictor_def)
  qed
  with Px ox have "P (rat_of_nat x) = Some (orig ! x)"
    by (simp add: unfilter_refilter)
  then show ?case by (simp only: P0)
qed

lemma roundtrip_Paeth:
  assumes bpp: "0 < bpp" and orig: "all_bytes orig" and x: "x < length orig"
  shows "unFilterPaeth (spec_filter_row 4 bpp orig) px (rat_of_nat bpp) 0 (rat_of_nat (length orig))
           (rat_of_nat x) = Some (orig ! x)"
  using x
proof (induction x rule: less_induct)
  case (less x)
  define P where "P = unFilterPaeth (spec_filter_row 4 bpp orig) px (rat_of_nat bpp)
                        (rat_of_nat (0 * length orig)) (rat_of_nat (length orig))"
  have P0: "P = unFilterPaeth (spec_filter_row 4 bpp orig) px (rat_of_nat bpp) 0 (rat_of_nat (length orig))"
    by (simp add: P_def)
  have ox: "0 \<le> orig ! x" "orig ! x < 256"
    using all_bytes_nth[OF orig less.prems] by simp_all
  have no_prior: "(0::nat) < 0 \<Longrightarrow> row_bytes px (length orig) (0 - 1)"
    by simp
  obtain a b c pr where a: "recon_a P bpp (length orig) 0 x = Some a"
    and b: "recon_b P (length orig) 0 x = Some b"
    and c: "recon_c P bpp (length orig) 0 x = Some c"
    and pr: "paeth_pr (Some a) (Some b) (Some c) = Some pr"
    and Px: "P (rat_of_nat (0 * length orig + x))
               = Some ((spec_filter_row 4 bpp orig ! x + pr) mod 256)"
    using unFilterPaeth_recon[OF bpp less.prems length_spec_filter_row all_bytes_spec_filter_row
        no_prior P_def]
    by blast
  have "b = 0" "c = 0" using b c by (simp_all add: recon_b_first recon_c_first)
  with pr have pra: "pr = a" by (simp add: paeth_left_only)
  have "spec_filter_row 4 bpp orig ! x = (orig ! x - pr) mod 256"
  proof (cases "x < bpp")
    case True
    with a pra less.prems show ?thesis
      by (simp add: recon_a_first_row spec_filter_row_nth spec_predictor_def spec_paeth_left)
  next
    case False
    then have "x - bpp < x" "x - bpp < length orig" using bpp less.prems by simp_all
    then have "P (rat_of_nat (x - bpp)) = Some (orig ! (x - bpp))"
      unfolding P0 by (rule less.IH)
    with a pra False less.prems show ?thesis
      by (simp add: recon_a_first_row spec_filter_row_nth spec_predictor_def spec_paeth_left)
  qed
  with Px ox have "P (rat_of_nat x) = Some (orig ! x)"
    by (simp add: unfilter_refilter)
  then show ?case by (simp only: P0)
qed

section \<open>The Average filter\<close>

text \<open>
  C4. For every byte position \<open>x\<close> of every row \<open>r\<close> (the first row and the first \<open>bpp\<close>
  positions included), \<open>unFilterAverage\<close> stores \<open>(filt(x) + floor((a + b) / 2)) mod 256\<close>,
  where \<open>a\<close> is the byte already reconstructed \<open>bpp\<close> positions to the left and \<open>b\<close> the
  byte of the row above, each 0 where it does not exist. The scanline holds bytes, and so
  does the row above.
\<close>

theorem unFilterAverage_rule:
  assumes "0 < bpp" and "x < len" and "length sl = len" and "all_bytes sl"
    and "0 < r \<Longrightarrow> row_bytes px len (r - 1)"
    and "P = unFilterAverage sl px (rat_of_nat bpp) (rat_of_nat (r * len)) (rat_of_nat len)"
  shows "\<exists>a b. recon_a P bpp len r x = Some a \<and> recon_b P len r x = Some b \<and>
           P (rat_of_nat (r * len + x)) = Some ((sl ! x + (a + b) div 2) mod 256)"
  using assms by (rule unFilterAverage_recon)

theorem unFilterAverage_rule_witness:
  "\<exists>a b. recon_a (unFilterAverage [10, 20] ((\<lambda>k. None)(0 := Some 200, 1 := Some 100)) 1 2 2) 1 2 1 1 = Some a
       \<and> recon_b (unFilterAverage [10, 20] ((\<lambda>k. None)(0 := Some 200, 1 := Some 100)) 1 2 2) 2 1 1 = Some b
       \<and> unFilterAverage [10, 20] ((\<lambda>k. None)(0 := Some 200, 1 := Some 100)) 1 2 2 3
           = Some ((20 + (a + b) div 2) mod 256)"
proof -
  have prior: "row_bytes ((\<lambda>k. None)(0 := Some 200, 1 := Some 100)) 2 (1 - 1)"
    by (simp add: row_bytes_def is_byte_def upt_rec)
  have sl: "all_bytes [10, 20]"
    by (simp add: all_bytes_def)
  show ?thesis
    using unFilterAverage_rule[of 1 1 2 "[10, 20]" 1 "(\<lambda>k. None)(0 := Some 200, 1 := Some 100)",
        OF _ _ _ sl prior refl]
    by simp
qed

section \<open>The Paeth predictor\<close>

text \<open>
  C3. In the predictor selection of \<open>unFilterPaeth\<close>, for all numbers \<open>a\<close>, \<open>b\<close>, \<open>c\<close> (bytes
  in particular) with distances \<open>pa\<close>, \<open>pb\<close>, \<open>pc\<close>: when \<open>pa = pb = pc\<close> the predictor is
  \<open>a\<close>, and when \<open>pa = pb < pc\<close> the predictor is \<open>a\<close>.
\<close>

theorem paeth_ties:
  assumes "paeth_pa (Some a) (Some b) (Some c) = Some pa"
    and "paeth_pb (Some a) (Some b) (Some c) = Some pb"
    and "paeth_pc (Some a) (Some b) (Some c) = Some pc"
  shows "(pa = pb \<and> pb = pc \<longrightarrow> paeth_pr (Some a) (Some b) (Some c) = Some a) \<and>
         (pa = pb \<and> pb < pc \<longrightarrow> paeth_pr (Some a) (Some b) (Some c) = Some a)"
  using assms by (simp add: paeth_pr_def js_le_def)

theorem paeth_ties_witness:
  "paeth_pr (Some 7) (Some 7) (Some 7) = Some 7 \<and> paeth_pr (Some 1) (Some 1) (Some 0) = Some 1"
proof -
  have d: "paeth_pa (Some 7) (Some 7) (Some 7) = Some 0" "paeth_pb (Some 7) (Some 7) (Some 7) = Some 0"
    "paeth_pc (Some 7) (Some 7) (Some 7) = Some 0"
    by (simp_all add: paeth_pa_def paeth_pb_def paeth_pc_def paeth_p_def js_abs_def js_sub_def js_add_def)
  have e: "paeth_pa (Some 1) (Some 1) (Some 0) = Some 1" "paeth_pb (Some 1) (Some 1) (Some 0) = Some 1"
    "paeth_pc (Some 1) (Some 1) (Some 0) = Some 2"
    by (simp_all add: paeth_pa_def paeth_pb_def paeth_pc_def paeth_p_def js_abs_def js_sub_def js_add_def)
  show ?thesis
    using paeth_ties[OF d] paeth_ties[OF e] by simp
qed

section \<open>Rows and columns at the boundary\<close>

text \<open>
  C2. In the first row (\<open>r = 0\<close>) \<open>unFilterUp\<close>, \<open>unFilterAverage\<close> and \<open>unFilterPaeth\<close>
  reconstruct every byte with \<open>b = 0\<close> and \<open>c = 0\<close>; in the first \<open>bpp\<close> bytes of any row
  the three functions with a left neighbour, \<open>unFilterSub\<close>, \<open>unFilterAverage\<close> and
  \<open>unFilterPaeth\<close>, reconstruct with \<open>a = 0\<close> and \<open>c = 0\<close>. The neighbour that does exist is
  read from the reconstructed store.
\<close>

theorem boundary_neighbours_zero:
  assumes bpp: "0 < bpp" and x: "x < len" and sl: "length sl = len" "all_bytes sl"
    and prior: "0 < r \<Longrightarrow> row_bytes px len (r - 1)"
    and S: "S = unFilterSub sl px (rat_of_nat bpp) (rat_of_nat (r * len)) (rat_of_nat len)"
    and U: "U = unFilterUp sl px (rat_of_nat bpp) (rat_of_nat (r * len)) (rat_of_nat len)"
    and A: "A = unFilterAverage sl px (rat_of_nat bpp) (rat_of_nat (r * len)) (rat_of_nat len)"
    and Q: "Q = unFilterPaeth sl px (rat_of_nat bpp) (rat_of_nat (r * len)) (rat_of_nat len)"
  shows "(r = 0 \<longrightarrow>
            U (rat_of_nat (r * len + x)) = Some ((sl ! x + 0) mod 256) \<and>
            (\<exists>a. recon_a A bpp len r x = Some a \<and>
                 A (rat_of_nat (r * len + x)) = Some ((sl ! x + (a + 0) div 2) mod 256)) \<and>
            (\<exists>a pr. recon_a Q bpp len r x = Some a \<and>
                 paeth_pr (Some a) (Some 0) (Some 0) = Some pr \<and>
                 Q (rat_of_nat (r * len + x)) = Some ((sl ! x + pr) mod 256))) \<and>
         (x < bpp \<longrightarrow>
            S (rat_of_nat (r * len + x)) = Some ((sl ! x + 0) mod 256) \<and>
            (\<exists>b. recon_b A len r x = Some b \<and>
                 A (rat_of_nat (r * len + x)) = Some ((sl ! x + (0 + b) div 2) mod 256)) \<and>
            (\<exists>b pr. recon_b Q len r x = Some b \<and>
                 paeth_pr (Some 0) (Some b) (Some 0) = Some pr \<and>
                 Q (rat_of_nat (r * len + x)) = Some ((sl ! x + pr) mod 256)))"
proof -
  from unFilterSub_recon[OF bpp x sl S]
  obtain sa where sa: "recon_a S bpp len r x = Some sa"
    "S (rat_of_nat (r * len + x)) = Some ((sl ! x + sa) mod 256)" by blast
  from unFilterUp_recon[OF x sl prior U]
  obtain ub where ub: "recon_b U len r x = Some ub"
    "U (rat_of_nat (r * len + x)) = Some ((sl ! x + ub) mod 256)" by blast
  from unFilterAverage_recon[OF bpp x sl prior A]
  obtain a b where ab: "recon_a A bpp len r x = Some a" "recon_b A len r x = Some b"
    "A (rat_of_nat (r * len + x)) = Some ((sl ! x + (a + b) div 2) mod 256)" by blast
  from unFilterPaeth_recon[OF bpp x sl prior Q]
  obtain qa qb qc pr where q: "recon_a Q bpp len r x = Some qa" "recon_b Q len r x = Some qb"
    "recon_c Q bpp len r x = Some qc" "paeth_pr (Some qa) (Some qb) (Some qc) = Some pr"
    "Q (rat_of_nat (r * len + x)) = Some ((sl ! x + pr) mod 256)" by blast
  have first: ?thesis if r0: "r = 0" and nlow: "\<not> x < bpp"
  proof -
    have "ub = 0" "b = 0" "qb = 0" "qc = 0"
      using ub(1) ab(2) q(2,3) r0 by (simp_all add: recon_b_first recon_c_first)
    with ub ab q r0 nlow show ?thesis by auto
  qed
  have low: ?thesis if rpos: "r \<noteq> 0" and xlow: "x < bpp"
  proof -
    have "sa = 0" "a = 0" "qa = 0" "qc = 0"
      using sa(1) ab(1) q(1,3) xlow by (simp_all add: recon_a_low recon_c_low)
    with sa ab q rpos xlow show ?thesis by auto
  qed
  have both: ?thesis if r0: "r = 0" and xlow: "x < bpp"
  proof -
    have "ub = 0" "b = 0" "qb = 0" "qc = 0"
      using ub(1) ab(2) q(2,3) r0 by (simp_all add: recon_b_first recon_c_first)
    moreover have "sa = 0" "a = 0" "qa = 0"
      using sa(1) ab(1) q(1) xlow by (simp_all add: recon_a_low)
    ultimately show ?thesis using sa ub ab q by auto
  qed
  show ?thesis
    using first low both by (cases "r = 0"; cases "x < bpp") auto
qed


theorem boundary_neighbours_zero_witness:
  "unFilterUp [10, 20] (\<lambda>k. None) 1 0 2 1 = Some ((20 + 0) mod 256) \<and>
   (\<exists>a. recon_a (unFilterAverage [10, 20] (\<lambda>k. None) 1 0 2) 1 2 0 1 = Some a \<and>
        unFilterAverage [10, 20] (\<lambda>k. None) 1 0 2 1 = Some ((20 + (a + 0) div 2) mod 256)) \<and>
   unFilterSub [10, 20] ((\<lambda>k. None)(0 := Some 200, 1 := Some 100)) 1 2 2 2 = Some ((10 + 0) mod 256) \<and>
   (\<exists>b pr. recon_b (unFilterPaeth [10, 20] ((\<lambda>k. None)(0 := Some 200, 1 := Some 100)) 1 2 2) 2 1 0 = Some b \<and>
        paeth_pr (Some 0) (Some b) (Some 0) = Some pr \<and>
        unFilterPaeth [10, 20] ((\<lambda>k. None)(0 := Some 200, 1 := Some 100)) 1 2 2 2 = Some ((10 + pr) mod 256))"
proof -
  have prior: "row_bytes ((\<lambda>k. None)(0 := Some 200, 1 := Some 100)) 2 (1 - 1)"
    by (simp add: row_bytes_def is_byte_def upt_rec)
  have sl: "all_bytes [10, 20]"
    by (simp add: all_bytes_def)
  have first: "(0::nat) < 0 \<Longrightarrow> row_bytes (\<lambda>k. None) 2 (0 - 1)"
    by simp
  show ?thesis
    using boundary_neighbours_zero[of 1 1 2 "[10, 20]" 0 "\<lambda>k. None",
        OF _ _ _ sl first refl refl refl refl]
      boundary_neighbours_zero[of 1 0 2 "[10, 20]" 1 "(\<lambda>k. None)(0 := Some 200, 1 := Some 100)",
        OF _ _ _ sl prior refl refl refl refl]
    by simp
qed

section \<open>Filtering, then unfiltering\<close>

text \<open>
  C1. For a single row of bytes and every filter type \<open>k\<close> from 0 to 4, filtering the row
  with the encoder-side filter of type \<open>k\<close> and reconstructing it with the unFilter function
  that \<open>interlaceNone\<close> selects for \<open>k\<close> gives back the original row, byte for byte.
  (One channel means 1 or 2 bytes per pixel; the statement holds for every positive
  \<open>bpp\<close>.)
\<close>

theorem filter_unfilter_roundtrip:
  assumes "0 < bpp" and "all_bytes orig" and "k \<in> {0, 1, 2, 3, 4}"
  shows "\<exists>P. unFilterScanline k (spec_filter_row k bpp orig) px (rat_of_nat bpp) 0
                (rat_of_nat (length orig)) = Inr P \<and>
             map (\<lambda>x. P (rat_of_nat x)) [0..<length orig] = map Some orig"
proof -
  have "map f [0..<length orig] = map Some orig"
    if "\<And>x. x < length orig \<Longrightarrow> f x = Some (orig ! x)" for f
    using that by (intro nth_equalityI) simp_all
  then show ?thesis
    using assms
    by (auto simp: unFilterScanline_def roundtrip_None roundtrip_Sub roundtrip_Up
        roundtrip_Average roundtrip_Paeth)
qed

theorem filter_unfilter_roundtrip_witness:
  "\<exists>P. unFilterScanline 4 (spec_filter_row 4 1 [200, 100, 7]) (\<lambda>k. None) 1 0 3 = Inr P \<and>
       map (\<lambda>x. P (rat_of_nat x)) [0..<length [200, 100, 7 :: int]] = map Some [200, 100, 7]"
proof -
  have orig: "all_bytes [200, 100, 7]"
    by (simp add: all_bytes_def)
  show ?thesis
    using filter_unfilter_roundtrip[of 1 "[200, 100, 7]" 4 "\<lambda>k. None", OF _ orig]
    by simp
qed

section \<open>Decoding the sample files\<close>

lemmas reader_defs = bindE_def decodeHeader_def new_PNGReader_def readBytes_def equalBytes_def
  PNG_signature_def decodeChunk_def readUInt32_def readUInt8_def at_index_def at_key_def js_shl_def
  toInt32_def bufferToString_def IHDR_def PLTE_def IDAT_def IEND_def decodeIHDR_def decodePLTE_def
  decodeIDAT_def decodeIEND_def set_width_def set_height_def set_bitDepth_def set_colorType_def
  set_compressionMethod_def set_filterMethod_def set_interlaceMethod_def set_palette_def new_PNG_def
  js_and_def Let_def chunk_loop.simps

lemmas pixel_defs = decodePixels_def interlaceNone_def interlaceAdam7_def new_ArrayBuffer_def
  js_trunc_def js_slice_def scanline_loop.simps unFilterScanline_def unFilterNone_def
  unFilterSub_def unFilterUp_def unFilterAverage_def unFilterPaeth_def for_loop.simps set_pixels_def
  js_add_def js_shr_def

lemma parse_sample:
  "parse sample_inflate \<lparr>data = None\<rparr> sample_png =
     Some \<lparr>inflated = [[0, 0, 0, 0, 0, 0, 0, 0, 0, 0]],
           cb_err = Some (InflateError ''unknown compression method''),
           cb_png = Some \<lparr>width = 1, height = 1, bitDepth = 8, colorType = 0,
               compressionMethod = 0, filterMethod = 0, interlaceMethod = 0,
               colors = 1, alpha = False, pixelBits = 0, palette = None, pixels = None\<rparr>\<rparr>"
  by (simp add: parse_def sample_png_def sample_inflate_def reader_defs pixel_defs)

lemma parse_inflates_once:
  "parse inflate options bs = Some res \<Longrightarrow> cb_png res \<noteq> None \<Longrightarrow> length (inflated res) = 1"
  by (auto simp: parse_def decodePixels_def Let_def split: sum.splits option.splits if_splits)

text \<open>The row loop ends when a row takes no negative number of bytes, so \<open>interlaceNone\<close>
  returns for every image whose width is not negative.\<close>

lemma scanline_loop_returns:
  assumes "0 \<le> cpr"
  shows "\<exists>res. scanline_loop dat bpp cpr px off i = Some res"
proof (induction "nat \<lceil>rat_of_nat (length dat) - i\<rceil>" arbitrary: px off i rule: less_induct)
  case less
  show ?case
  proof (cases "i < rat_of_nat (length dat)")
    case False
    then show ?thesis by (subst scanline_loop.simps) simp
  next
    case True
    show ?thesis
    proof (cases "unFilterScanline (readUInt8 dat i) (js_slice dat (i + 1) (i + cpr + 1)) px bpp off cpr")
      case (Inl e)
      with True show ?thesis by (subst scanline_loop.simps) simp
    next
      case (Inr px')
      have pos: "0 < \<lceil>rat_of_nat (length dat) - i\<rceil>"
        using True by simp
      have "rat_of_nat (length dat) - (i + (cpr + 1)) \<le> rat_of_nat (length dat) - i - 1"
        using assms by simp
      then have "\<lceil>rat_of_nat (length dat) - (i + (cpr + 1))\<rceil> \<le> \<lceil>rat_of_nat (length dat) - i - 1\<rceil>"
        by (rule ceiling_mono)
      also have "\<dots> = \<lceil>rat_of_nat (length dat) - i\<rceil> - 1"
        by simp
      finally have "nat \<lceil>rat_of_nat (length dat) - (i + (cpr + 1))\<rceil> < nat \<lceil>rat_of_nat (length dat) - i\<rceil>"
        using pos by linarith
      from less[OF this]
      obtain res where "scanline_loop dat bpp cpr px' (off + cpr) (i + (cpr + 1)) = Some res"
        by blast
      with True Inr show ?thesis by (subst scanline_loop.simps) simp
    qed
  qed
qed

lemma interlaceNone_returns:
  assumes "0 \<le> width p"
  shows "\<exists>res. interlaceNone dat p = Some res"
proof -
  have "0 \<le> max 1 (rat_of_int (colors p * bitDepth p) / 8) * rat_of_int (width p)"
    using assms by (intro mult_nonneg_nonneg) simp_all
  from scanline_loop_returns[OF this]
  have loop: "\<And>px. \<exists>res. scanline_loop dat (max 1 (rat_of_int (colors p * bitDepth p) / 8))
      (max 1 (rat_of_int (colors p * bitDepth p) / 8) * rat_of_int (width p)) px 0 0 = Some res"
    by blast
  show ?thesis
  proof (cases "new_ArrayBuffer (max 1 (rat_of_int (colors p * bitDepth p) / 8)
                  * rat_of_int (width p) * rat_of_int (height p))")
    case (Inl e)
    then show ?thesis by (simp add: interlaceNone_def Let_def)
  next
    case (Inr px)
    from loop[of px] obtain res where
      "scanline_loop dat (max 1 (rat_of_int (colors p * bitDepth p) / 8))
         (max 1 (rat_of_int (colors p * bitDepth p) / 8) * rat_of_int (width p)) px 0 0 = Some res"
      by blast
    with Inr show ?thesis
      by (cases res) (simp_all add: interlaceNone_def Let_def)
  qed
qed

lemma header_only_reader:
  "bindE (decodeHeader (new_PNGReader sample_png)) (chunk_loop \<lparr>data = Some False\<rparr>) =
     Inr \<lparr>bytes = sample_png, pos = 33,
          png = \<lparr>width = 1, height = 1, bitDepth = 8, colorType = 0,
               compressionMethod = 0, filterMethod = 0, interlaceMethod = 0,
               colors = 1, alpha = False, pixelBits = 0, palette = None, pixels = None\<rparr>,
          dataChunks = [], header = Some PNG_signature\<rparr>"
  by (simp add: sample_png_def reader_defs)

section \<open>Header-only decoding\<close>

text \<open>
  C8. The claim: parsing a well-formed file with the header-only option
  (\<^verbatim>\<open>data === false\<close>) returns the descriptor without invoking the decompression
  collaborator. \<open>parse\<close> leaves its chunk loop after IHDR, as its comment says, and then
  calls \<open>decodePixels\<close> all the same: on the sample file every collaborator is invoked
  once, with the empty input; when it rejects that input, as \<open>sample_inflate\<close> does, its
  error reaches the callback together with the descriptor.
\<close>

theorem header_only_calls_inflate:
  "(\<exists>res. parse inflate \<lparr>data = Some False\<rparr> sample_png = Some res \<and> inflated res = [[]]) \<and>
   parse sample_inflate \<lparr>data = Some False\<rparr> sample_png =
     Some \<lparr>inflated = [[]], cb_err = Some (InflateError ''buffer error''),
           cb_png = Some \<lparr>width = 1, height = 1, bitDepth = 8, colorType = 0,
               compressionMethod = 0, filterMethod = 0, interlaceMethod = 0,
               colors = 1, alpha = False, pixelBits = 0, palette = None, pixels = None\<rparr>\<rparr>"
proof
  let ?p = "\<lparr>width = 1, height = 1, bitDepth = 8, colorType = 0,
               compressionMethod = 0, filterMethod = 0, interlaceMethod = 0,
               colors = 1, alpha = False, pixelBits = 0, palette = None, pixels = None\<rparr>"
  show "\<exists>res. parse inflate \<lparr>data = Some False\<rparr> sample_png = Some res \<and> inflated res = [[]]"
  proof (cases "inflate []")
    case (Inl msg)
    then show ?thesis
      by (simp add: parse_def header_only_reader decodePixels_def)
  next
    case (Inr raw)
    obtain res where "interlaceNone raw ?p = Some res"
      using interlaceNone_returns[of ?p raw] by auto
    with Inr show ?thesis
      by (cases res) (simp_all add: parse_def header_only_reader decodePixels_def)
  qed
next
  show "parse sample_inflate \<lparr>data = Some False\<rparr> sample_png =
     Some \<lparr>inflated = [[]], cb_err = Some (InflateError ''buffer error''),
           cb_png = Some \<lparr>width = 1, height = 1, bitDepth = 8, colorType = 0,
               compressionMethod = 0, filterMethod = 0, interlaceMethod = 0,
               colors = 1, alpha = False, pixelBits = 0, palette = None, pixels = None\<rparr>\<rparr>"
    by (simp add: parse_def header_only_reader decodePixels_def sample_inflate_def)
qed

section \<open>Chunk lengths with the top bit set\<close>

lemma signed_take_bit_31_high:
  assumes "2147483648 \<le> v" "v < 4294967296"
  shows "signed_take_bit 31 (v::int) = v - 4294967296"
proof -
  have "signed_take_bit 31 v = take_bit 32 (v + 2147483648) - 2147483648"
    by (simp add: signed_take_bit_eq_take_bit_shift)
  also have "take_bit 32 (v + 2147483648) = (v + 2147483648) mod 4294967296"
    by (simp add: take_bit_eq_mod)
  also have "(v + 2147483648) mod 4294967296 = (v + 2147483648 - 4294967296) mod 4294967296"
    by (simp only: minus_mod_self2)
  also have "\<dots> = v + 2147483648 - 4294967296"
    using assms by (intro mod_pos_pos_trivial) simp_all
  finally show ?thesis by simp
qed

lemma js_shl_small:
  assumes "0 \<le> b" "b < 256" "n \<le> 16"
  shows "js_shl (Some b) n = b * 2 ^ n"
proof -
  have "b * 2 ^ n \<le> 255 * 2 ^ n"
    using assms by (intro mult_right_mono) simp_all
  also have "(255::int) * 2 ^ n \<le> 255 * 2 ^ 16"
    using assms by (intro mult_left_mono power_increasing) simp_all
  finally have "b * 2 ^ n < 2147483648" by simp
  moreover have "0 \<le> b * 2 ^ n" using assms by simp
  ultimately have "signed_take_bit 31 (b * 2 ^ n) = b * 2 ^ n"
    by (intro signed_take_bit_int_eq_self) simp_all
  moreover have "signed_take_bit 31 b = b"
    using assms by (intro signed_take_bit_int_eq_self) simp_all
  ultimately show ?thesis
    by (simp add: js_shl_def toInt32_def push_bit_eq_mult)
qed

lemma js_shl_top:
  assumes "128 \<le> b" "b < 256"
  shows "js_shl (Some b) 24 = b * 16777216 - 4294967296"
proof -
  have "signed_take_bit 31 b = b"
    using assms by (intro signed_take_bit_int_eq_self) simp_all
  then have "js_shl (Some b) 24 = signed_take_bit 31 (b * 16777216)"
    by (simp add: js_shl_def toInt32_def push_bit_eq_mult)
  also have "\<dots> = b * 16777216 - 4294967296"
    using assms by (intro signed_take_bit_31_high) simp_all
  finally show ?thesis .
qed

lemma readUInt32_top_bit:
  assumes "128 \<le> b0" "b0 < 256" "0 \<le> b1" "b1 < 256" "0 \<le> b2" "b2 < 256" "0 \<le> b3" "b3 < 256"
  shows "readUInt32 [b0, b1, b2, b3] 0 = b0 * 16777216 + b1 * 65536 + b2 * 256 + b3 - 4294967296"
  using assms js_shl_small[of b1 16] js_shl_small[of b2 8] js_shl_small[of b3 0]
  by (simp add: readUInt32_def at_index_def js_shl_top)

lemma js_and_all_ones:
  assumes "- 2147483648 \<le> v" "v < 2147483648"
  shows "js_and (Some 4294967295) (Some v) = v"
proof -
  have "signed_take_bit 31 (4294967295::int) = - 1"
    by simp
  moreover have "signed_take_bit 31 v = v"
    using assms by (intro signed_take_bit_int_eq_self) simp_all
  ultimately show ?thesis
    by (simp add: js_and_def toInt32_def)
qed

text \<open>
  C9. When the four bytes of a chunk's length field have the most significant bit set,
  \<open>readUInt32\<close> yields a negative number (the shift by 24 is a signed 32-bit shift) and
  \<open>decodeChunk\<close> throws "Bad chunk length" with that number, before it reads the chunk's
  type or data.
\<close>

theorem bad_chunk_length:
  assumes "take 4 (drop (pos r) (bytes r)) = [b0, b1, b2, b3]"
    and "128 \<le> b0" "b0 < 256" "0 \<le> b1" "b1 < 256" "0 \<le> b2" "b2 < 256" "0 \<le> b3" "b3 < 256"
  shows "readUInt32 [b0, b1, b2, b3] 0 = b0 * 16777216 + b1 * 65536 + b2 * 256 + b3 - 4294967296 \<and>
         readUInt32 [b0, b1, b2, b3] 0 < 0 \<and>
         decodeChunk r = Inl (BadChunkLength (readUInt32 [b0, b1, b2, b3] 0))"
proof -
  let ?n = "readUInt32 [b0, b1, b2, b3] 0"
  have val: "?n = b0 * 16777216 + b1 * 65536 + b2 * 256 + b3 - 4294967296"
    using assms(2-) by (rule readUInt32_top_bit)
  have neg: "?n < 0" and low: "- 2147483648 \<le> ?n"
    using assms(2-) unfolding val by simp_all
  have "length (take 4 (drop (pos r) (bytes r))) = 4"
    using assms(1) by simp
  then have enough: "pos r + 4 \<le> length (bytes r)"
    by simp
  have "decodeChunk r = Inl (BadChunkLength (js_and (Some 4294967295) (Some ?n)))"
    using enough neg assms(1) by (simp add: decodeChunk_def readBytes_def bindE_def Let_def)
  also have "js_and (Some 4294967295) (Some ?n) = ?n"
    using low neg by (intro js_and_all_ones) simp_all
  finally show ?thesis using val neg by simp
qed

theorem bad_chunk_length_witness:
  "decodeChunk (new_PNGReader [255, 0, 0, 1]) = Inl (BadChunkLength (- 16777215))"
  using bad_chunk_length[of "new_PNGReader [255, 0, 0, 1]" 255 0 0 1]
  by (simp add: new_PNGReader_def)

section \<open>Width and height\<close>

text \<open>
  C6, as claimed: an IHDR chunk whose width or height is 0 is rejected at assignment time,
  and decoding never produces a descriptor with width 0 or height 0. The setters of
  \<open>width\<close> and \<open>height\<close> check nothing: \<open>decodeIHDR\<close> accepts a chunk with width 0 and height
  0, the chunk loop of \<open>parse\<close> reads the whole file \<open>zero_size_png\<close> without an error, and
  the callback gets a descriptor of width 0 and height 0; the error it gets with it is the
  collaborator's, on the zero bytes it was handed.
\<close>

theorem zero_size_counterexample:
  "map_sum id (width \<circ> png) (decodeIHDR [0, 0, 0, 0, 0, 0, 0, 0, 8, 0, 0, 0, 0] (new_PNGReader [])) = Inr 0 \<and>
   map_sum id (height \<circ> png) (decodeIHDR [0, 0, 0, 0, 0, 0, 0, 0, 8, 0, 0, 0, 0] (new_PNGReader [])) = Inr 0 \<and>
   map_sum id (width \<circ> png)
     (bindE (decodeHeader (new_PNGReader zero_size_png)) (chunk_loop \<lparr>data = None\<rparr>)) = Inr 0 \<and>
   map_sum id (height \<circ> png)
     (bindE (decodeHeader (new_PNGReader zero_size_png)) (chunk_loop \<lparr>data = None\<rparr>)) = Inr 0 \<and>
   map_option cb_err (parse sample_inflate \<lparr>data = None\<rparr> zero_size_png)
     = Some (Some (InflateError ''unknown compression method'')) \<and>
   map_option (map_option width \<circ> cb_png) (parse sample_inflate \<lparr>data = None\<rparr> zero_size_png)
     = Some (Some 0) \<and>
   map_option (map_option height \<circ> cb_png) (parse sample_inflate \<lparr>data = None\<rparr> zero_size_png)
     = Some (Some 0)"
  by (simp add: parse_def zero_size_png_def sample_inflate_def reader_defs pixel_defs)

lemma decodeIHDR_size:
  "decodeIHDR c r = Inr r' \<Longrightarrow> width (png r') = readUInt32 c 0 \<and> height (png r') = readUInt32 c 4"
  by (auto simp: decodeIHDR_def bindE_def set_width_def set_height_def set_bitDepth_def
      set_colorType_def set_compressionMethod_def set_filterMethod_def set_interlaceMethod_def
      split: if_splits)

text \<open>
  C6, as the code has it: decoding an IHDR chunk does not fail on account of its width or
  height. Whether \<open>decodeIHDR\<close> fails, and with which error, is the same for two chunks
  that agree in the bytes of bit depth, colour type, compression method, filter method and
  interlace method; and when it succeeds the descriptor has the width and the height that
  \<open>readUInt32\<close> read, 0 included.
\<close>

theorem decodeIHDR_size_unchecked:
  "(readUInt8 c1 8 = readUInt8 c2 8 \<and> readUInt8 c1 9 = readUInt8 c2 9 \<and>
    readUInt8 c1 10 = readUInt8 c2 10 \<and> readUInt8 c1 11 = readUInt8 c2 11 \<and>
    readUInt8 c1 12 = readUInt8 c2 12 \<longrightarrow>
      map_sum id (\<lambda>r'. ()) (decodeIHDR c1 r) = map_sum id (\<lambda>r'. ()) (decodeIHDR c2 r)) \<and>
   (\<forall>r'. decodeIHDR c1 r = Inr r' \<longrightarrow>
      width (png r') = readUInt32 c1 0 \<and> height (png r') = readUInt32 c1 4)"
  by (simp add: decodeIHDR_size)
     (simp add: decodeIHDR_def bindE_def set_width_def set_height_def set_bitDepth_def
        set_colorType_def set_compressionMethod_def set_filterMethod_def set_interlaceMethod_def)

theorem decodeIHDR_size_unchecked_witness:
  "map_sum id (\<lambda>r'. ()) (decodeIHDR [0, 0, 0, 0, 0, 0, 0, 0, 8, 0, 0, 0, 0] (new_PNGReader [])) =
     map_sum id (\<lambda>r'. ()) (decodeIHDR [0, 0, 0, 1, 0, 0, 0, 1, 8, 0, 0, 0, 0] (new_PNGReader [])) \<and>
   map_sum id (\<lambda>r'. (width (png r'), height (png r')))
     (decodeIHDR [0, 0, 0, 0, 0, 0, 0, 0, 8, 0, 0, 0, 0] (new_PNGReader [])) = Inr (0, 0)"
proof -
  let ?c = "[0, 0, 0, 0, 0, 0, 0, 0, 8, 0, 0, 0, 0] :: int list"
  let ?d = "[0, 0, 0, 1, 0, 0, 0, 1, 8, 0, 0, 0, 0] :: int list"
  have same: "readUInt8 ?c 8 = readUInt8 ?d 8" "readUInt8 ?c 9 = readUInt8 ?d 9"
    "readUInt8 ?c 10 = readUInt8 ?d 10" "readUInt8 ?c 11 = readUInt8 ?d 11"
    "readUInt8 ?c 12 = readUInt8 ?d 12"
    by (simp_all add: readUInt8_def at_key_def js_shl_def toInt32_def)
  have size: "readUInt32 ?c 0 = 0" "readUInt32 ?c 4 = 0"
    by (simp_all add: readUInt32_def at_index_def js_shl_def toInt32_def)
  obtain r' where r': "decodeIHDR ?c (new_PNGReader []) = Inr r'"
    by (simp add: reader_defs)
  from decodeIHDR_size_unchecked[of ?c ?d "new_PNGReader []"] same r' size
  show ?thesis by simp
qed

section \<open>Chunks before the header\<close>

text \<open>
  C7, as claimed: a PLTE, IDAT or IEND chunk in front of the IHDR chunk makes decoding fail
  with "chunk before header". The source has no such check and no such error. The chunk
  loop of \<open>parse\<close> reads \<open>idat_first_png\<close> and \<open>plte_first_png\<close> to the end without an error,
  with the early IDAT data among the accumulated chunks and the early palette stored, and
  it stops at the early IEND chunk of \<open>iend_first_png\<close>, 20 bytes into the file. The error
  the callback gets for the first two files is the collaborator's.
\<close>

theorem chunk_before_header_counterexample:
  "map_sum id dataChunks
     (bindE (decodeHeader (new_PNGReader idat_first_png)) (chunk_loop \<lparr>data = None\<rparr>))
     = Inr [[120, 156, 99, 96, 7, 0, 0, 9, 0, 8]] \<and>
   map_sum id (palette \<circ> png)
     (bindE (decodeHeader (new_PNGReader plte_first_png)) (chunk_loop \<lparr>data = None\<rparr>))
     = Inr (Some [1, 2, 3]) \<and>
   map_sum id pos
     (bindE (decodeHeader (new_PNGReader iend_first_png)) (chunk_loop \<lparr>data = None\<rparr>))
     = Inr 20 \<and>
   map_option cb_err (parse sample_inflate \<lparr>data = None\<rparr> idat_first_png)
     = Some (Some (InflateError ''unknown compression method'')) \<and>
   map_option cb_err (parse sample_inflate \<lparr>data = None\<rparr> plte_first_png)
     = Some (Some (InflateError ''unknown compression method''))"
  by (simp add: parse_def idat_first_png_def plte_first_png_def iend_first_png_def
      sample_inflate_def reader_defs pixel_defs)

lemma drop_past: "drop p xs = a @ b \<Longrightarrow> drop (p + length a) xs = b"
proof -
  assume "drop p xs = a @ b"
  then have "drop (length a) (drop p xs) = b" by simp
  then show ?thesis by (simp add: add.commute)
qed

lemma decodeChunk_frame:
  assumes "drop (pos r) (bytes r) = lb @ ty @ chunk @ crc @ rest"
    and "length lb = 4" and "length ty = 4" and "length crc = 4"
    and "readUInt32 lb 0 = int (length chunk)"
  shows "pos r < length (bytes r)"
    and "decodeChunk r =
      bindE (if bufferToString ty = IHDR then decodeIHDR chunk (r\<lparr>pos := pos r + 12 + length chunk\<rparr>)
             else if bufferToString ty = PLTE then decodePLTE chunk (r\<lparr>pos := pos r + 12 + length chunk\<rparr>)
             else if bufferToString ty = IDAT then Inr (decodeIDAT chunk (r\<lparr>pos := pos r + 12 + length chunk\<rparr>))
             else if bufferToString ty = IEND then Inr (decodeIEND chunk (r\<lparr>pos := pos r + 12 + length chunk\<rparr>))
             else Inr (r\<lparr>pos := pos r + 12 + length chunk\<rparr>))
        (\<lambda>r5. Inr (bufferToString ty, r5))"
proof -
  have "length (drop (pos r) (bytes r)) = 12 + length chunk + length rest"
    using assms by simp
  then have total: "pos r + (12 + length chunk) \<le> length (bytes r)"
    by simp
  then show "pos r < length (bytes r)"
    by simp
  note d0 = assms(1)
  have d1: "drop (pos r + 4) (bytes r) = ty @ chunk @ crc @ rest"
    using drop_past[OF d0] assms(2) by simp
  have d2: "drop (pos r + 4 + 4) (bytes r) = chunk @ crc @ rest"
    using drop_past[OF d1] assms(3) by simp
  have d3: "drop (pos r + 4 + 4 + length chunk) (bytes r) = crc @ rest"
    using drop_past[OF d2] by simp
  have l: "take 4 (drop (pos r) (bytes r)) = lb"
    unfolding d0 using assms(2) by simp
  have t: "take 4 (drop (pos r + 4) (bytes r)) = ty"
    unfolding d1 using assms(3) by simp
  have c: "take (length chunk) (drop (pos r + 4 + 4) (bytes r)) = chunk"
    unfolding d2 by simp
  have x: "take 4 (drop (pos r + 4 + 4 + length chunk) (bytes r)) = crc"
    unfolding d3 using assms(4) by simp
  have r1: "readBytes 4 r = Inr (lb, r\<lparr>pos := pos r + 4\<rparr>)"
    using total l by (simp add: readBytes_def Let_def)
  have r2: "readBytes 4 (r\<lparr>pos := pos r + 4\<rparr>) = Inr (ty, r\<lparr>pos := pos r + 4 + 4\<rparr>)"
    using total t by (simp add: readBytes_def Let_def)
  have r3: "readBytes (length chunk) (r\<lparr>pos := pos r + 4 + 4\<rparr>)
      = Inr (chunk, r\<lparr>pos := pos r + 4 + 4 + length chunk\<rparr>)"
    using total c by (simp add: readBytes_def Let_def)
  have r4: "readBytes 4 (r\<lparr>pos := pos r + 4 + 4 + length chunk\<rparr>)
      = Inr (crc, r\<lparr>pos := pos r + 12 + length chunk\<rparr>)"
    using total x by (simp add: readBytes_def Let_def)
  show "decodeChunk r =
      bindE (if bufferToString ty = IHDR then decodeIHDR chunk (r\<lparr>pos := pos r + 12 + length chunk\<rparr>)
             else if bufferToString ty = PLTE then decodePLTE chunk (r\<lparr>pos := pos r + 12 + length chunk\<rparr>)
             else if bufferToString ty = IDAT then Inr (decodeIDAT chunk (r\<lparr>pos := pos r + 12 + length chunk\<rparr>))
             else if bufferToString ty = IEND then Inr (decodeIEND chunk (r\<lparr>pos := pos r + 12 + length chunk\<rparr>))
             else Inr (r\<lparr>pos := pos r + 12 + length chunk\<rparr>))
        (\<lambda>r5. Inr (bufferToString ty, r5))"
    unfolding decodeChunk_def
    by (simp only: r1 r2 r3 r4 assms(5) bindE_def Let_def sum.case prod.case
        of_nat_less_0_iff if_False nat_int)
qed

text \<open>
  C7, as the code has it: \<open>decodeChunk\<close> processes a complete PLTE, IDAT or IEND chunk in the
  same way in every state of the reader, before the IHDR chunk as well as after it. The
  data of an IDAT chunk is appended to the accumulated chunks and the chunk loop goes on
  with the next chunk; an IEND chunk is accepted and ends the chunk loop; a PLTE chunk
  goes to the palette setter, and the chunk loop goes on when the setter accepts it.
\<close>

theorem chunk_order_unchecked:
  assumes "drop (pos r) (bytes r) = lb @ ty @ chunk @ crc @ rest"
    and "length lb = 4" and "length ty = 4" and "length crc = 4"
    and "readUInt32 lb 0 = int (length chunk)"
  shows "(ty = IDAT \<longrightarrow>
            decodeChunk r =
              Inr (IDAT, r\<lparr>pos := pos r + 12 + length chunk, dataChunks := dataChunks r @ [chunk]\<rparr>) \<and>
            chunk_loop options r =
              chunk_loop options
                (r\<lparr>pos := pos r + 12 + length chunk, dataChunks := dataChunks r @ [chunk]\<rparr>)) \<and>
         (ty = IEND \<longrightarrow>
            decodeChunk r = Inr (IEND, r\<lparr>pos := pos r + 12 + length chunk\<rparr>) \<and>
            chunk_loop options r = Inr (r\<lparr>pos := pos r + 12 + length chunk\<rparr>)) \<and>
         (ty = PLTE \<longrightarrow>
            decodeChunk r =
              bindE (set_palette chunk (png r))
                (\<lambda>p. Inr (PLTE, r\<lparr>pos := pos r + 12 + length chunk, png := p\<rparr>)) \<and>
            chunk_loop options r =
              bindE (set_palette chunk (png r))
                (\<lambda>p. chunk_loop options (r\<lparr>pos := pos r + 12 + length chunk, png := p\<rparr>)))"
proof -
  note inside = decodeChunk_frame(1)[OF assms]
  note step = decodeChunk_frame(2)[OF assms]
  have idat: "decodeChunk r =
      Inr (IDAT, r\<lparr>pos := pos r + 12 + length chunk, dataChunks := dataChunks r @ [chunk]\<rparr>)"
    if "ty = IDAT"
    unfolding step using that
    by (simp add: bindE_def bufferToString_def IHDR_def PLTE_def IDAT_def decodeIDAT_def)
  have iend: "decodeChunk r = Inr (IEND, r\<lparr>pos := pos r + 12 + length chunk\<rparr>)"
    if "ty = IEND"
    unfolding step using that
    by (simp add: bindE_def bufferToString_def IHDR_def PLTE_def IDAT_def IEND_def decodeIEND_def)
  have plte: "decodeChunk r =
      bindE (set_palette chunk (png r))
        (\<lambda>p. Inr (PLTE, r\<lparr>pos := pos r + 12 + length chunk, png := p\<rparr>))"
    if "ty = PLTE"
    unfolding step using that
    by (simp add: bindE_def bufferToString_def IHDR_def PLTE_def decodePLTE_def split: sum.splits)
  have "chunk_loop options r =
      chunk_loop options (r\<lparr>pos := pos r + 12 + length chunk, dataChunks := dataChunks r @ [chunk]\<rparr>)"
    if "ty = IDAT"
    using inside idat[OF that]
    by (subst chunk_loop.simps) (simp add: IHDR_def IDAT_def IEND_def)
  moreover have "chunk_loop options r = Inr (r\<lparr>pos := pos r + 12 + length chunk\<rparr>)"
    if "ty = IEND"
    using inside iend[OF that]
    by (subst chunk_loop.simps) simp
  moreover have "chunk_loop options r =
      bindE (set_palette chunk (png r))
        (\<lambda>p. chunk_loop options (r\<lparr>pos := pos r + 12 + length chunk, png := p\<rparr>))"
    if "ty = PLTE"
    using inside plte[OF that]
    by (subst chunk_loop.simps) (simp add: bindE_def IHDR_def PLTE_def IEND_def split: sum.splits)
  ultimately show ?thesis
    using idat iend plte by blast
qed

theorem chunk_order_unchecked_witness:
  "decodeChunk \<lparr>bytes = idat_first_png, pos = 8, png = new_PNG, dataChunks = [],
                header = Some PNG_signature\<rparr> =
     Inr (IDAT, \<lparr>bytes = idat_first_png, pos = 30, png = new_PNG,
                 dataChunks = [[120, 156, 99, 96, 7, 0, 0, 9, 0, 8]],
                 header = Some PNG_signature\<rparr>) \<and>
   chunk_loop \<lparr>data = None\<rparr> \<lparr>bytes = iend_first_png, pos = 8, png = new_PNG, dataChunks = [],
                header = Some PNG_signature\<rparr> =
     Inr \<lparr>bytes = iend_first_png, pos = 20, png = new_PNG, dataChunks = [],
          header = Some PNG_signature\<rparr>"
proof -
  let ?r = "\<lparr>bytes = idat_first_png, pos = 8, png = new_PNG, dataChunks = [],
             header = Some PNG_signature\<rparr>"
  let ?e = "\<lparr>bytes = iend_first_png, pos = 8, png = new_PNG, dataChunks = [],
             header = Some PNG_signature\<rparr>"
  have frame: "drop (pos ?r) (bytes ?r) =
      [0, 0, 0, 10] @ IDAT @ [120, 156, 99, 96, 7, 0, 0, 9, 0, 8] @ [32, 35, 195, 140]
      @ [0, 0, 0, 13, 73, 72, 68, 82, 0, 0, 0, 1, 0, 0, 0, 1, 8, 0, 0, 0, 0, 58, 126, 155, 85,
         0, 0, 0, 0, 73, 69, 78, 68, 174, 66, 96, 130]"
    by (simp add: idat_first_png_def IDAT_def)
  have len: "readUInt32 [0, 0, 0, 10] 0 = int (length [120, 156, 99, 96, 7, 0, 0, 9, 0, 8 :: int])"
    by (simp add: readUInt32_def at_index_def js_shl_def toInt32_def)
  have frame_e: "drop (pos ?e) (bytes ?e) =
      [0, 0, 0, 0] @ IEND @ [] @ [174, 66, 96, 130]
      @ [0, 0, 0, 13, 73, 72, 68, 82, 0, 0, 0, 1, 0, 0, 0, 1, 8, 0, 0, 0, 0, 58, 126, 155, 85,
         0, 0, 0, 10, 73, 68, 65, 84, 120, 156, 99, 96, 7, 0, 0, 9, 0, 8, 32, 35, 195, 140,
         0, 0, 0, 0, 73, 69, 78, 68, 174, 66, 96, 130]"
    by (simp add: iend_first_png_def IEND_def)
  have len_e: "readUInt32 [0, 0, 0, 0] 0 = int (length ([] :: int list))"
    by (simp add: readUInt32_def at_index_def js_shl_def toInt32_def)
  show ?thesis
    using chunk_order_unchecked[OF frame _ _ _ len, of "\<lparr>data = None\<rparr>"]
      chunk_order_unchecked[OF frame_e _ _ _ len_e, of "\<lparr>data = None\<rparr>"]
    by (simp add: IDAT_def IEND_def)
qed

section \<open>Pixel coordinates\<close>

text \<open>
  A descriptor holds pixel data once \<open>interlaceNone\<close> has run to its end or the \<open>pixels\<close>
  setter was called; a decode that ends without an error leaves such a descriptor. On the
  sample file the collaborator is handed zero bytes and rejects them, so the descriptor
  that decode leaves has none, and \<open>getPixel\<close> fails on it with "pixel data is empty".
\<close>

lemma getPixel_OutOfBound_iff:
  "getPixel x y p = Inl OutOfBound \<longleftrightarrow> pixels p \<noteq> None \<and> (width p \<le> x \<or> height p \<le> y)"
  by (auto simp: getPixel_def Let_def split: option.splits)

lemma successful_decode_has_pixels:
  assumes "parse inflate options bs = Some res" and "cb_err res = None"
  shows "\<exists>img px. cb_png res = Some img \<and> pixels img = Some px"
  using assms
  by (auto simp: parse_def decodePixels_def interlaceNone_def interlaceAdam7_def set_pixels_def
      Let_def split: sum.splits option.splits if_splits)

lemma getPixel_after_sample_decode:
  "\<exists>res img. parse sample_inflate \<lparr>data = None\<rparr> sample_png = Some res \<and>
     cb_png res = Some img \<and> getPixel (- 1) (- 1) img = Inl PixelDataEmpty"
  by (simp add: parse_sample getPixel_def)

text \<open>
  C10. On a descriptor that holds pixel data, \<open>getPixel\<close> raises its out-of-bounds error
  exactly when \<open>x \<ge> width\<close> or \<open>y \<ge> height\<close>. Negative coordinates are not rejected: for a
  width and a height that are not negative, no pair of negative coordinates gets the
  out-of-bounds error.
\<close>

theorem getPixel_bounds:
  "(pixels p \<noteq> None \<longrightarrow>
      (getPixel x y p = Inl OutOfBound \<longleftrightarrow> width p \<le> x \<or> height p \<le> y)) \<and>
   (x < 0 \<and> y < 0 \<and> 0 \<le> width p \<and> 0 \<le> height p \<longrightarrow> getPixel x y p \<noteq> Inl OutOfBound)"
  by (auto simp: getPixel_OutOfBound_iff)

theorem getPixel_bounds_witness:
  "getPixel 1 0 \<lparr>width = 1, height = 1, bitDepth = 8, colorType = 0,
               compressionMethod = 0, filterMethod = 0, interlaceMethod = 0,
               colors = 1, alpha = False, pixelBits = 0, palette = None,
               pixels = Some ((\<lambda>k. None)(0 := Some 7))\<rparr> = Inl OutOfBound \<and>
   getPixel (- 1) (- 1) \<lparr>width = 1, height = 1, bitDepth = 8, colorType = 0,
               compressionMethod = 0, filterMethod = 0, interlaceMethod = 0,
               colors = 1, alpha = False, pixelBits = 0, palette = None,
               pixels = Some ((\<lambda>k. None)(0 := Some 7))\<rparr> \<noteq> Inl OutOfBound \<and>
   getPixel (- 1) (- 1) \<lparr>width = 1, height = 1, bitDepth = 8, colorType = 0,
               compressionMethod = 0, filterMethod = 0, interlaceMethod = 0,
               colors = 1, alpha = False, pixelBits = 0, palette = None,
               pixels = Some ((\<lambda>k. None)(0 := Some 7))\<rparr>
     = Inr (Some [None, None, None, Some 255])"
proof -
  let ?p = "\<lparr>width = 1, height = 1, bitDepth = 8, colorType = 0,
               compressionMethod = 0, filterMethod = 0, interlaceMethod = 0,
               colors = 1, alpha = False, pixelBits = 0, palette = None,
               pixels = Some ((\<lambda>k. None)(0 := Some 7))\<rparr>"
  have "getPixel (- 1) (- 1) ?p = Inr (Some [None, None, None, Some 255])"
    by (simp add: getPixel_def)
  with getPixel_bounds[of ?p 1 0] getPixel_bounds[of ?p "- 1" "- 1"]
  show ?thesis by simp
qed

end
